theory Spec2Isabelle
  imports Main
begin

section \<open>Python strings\<close>

text \<open>
  A Python \<open>str\<close> is modelled as a \<open>string\<close> whose characters are the code points
  below 256 (Latin-1).  The predicates below are the restrictions of the Python
  ones to that range.
\<close>

definition NL :: char where
  "NL = CHR 0x0A"

definition CR :: char where
  "CR = CHR 0x0D"

definition is_space :: "char \<Rightarrow> bool" where
  \<comment> \<open>\<open>str.isspace\<close> on one character, which is also what \<open>\s\<close> matches in a \<open>str\<close> pattern\<close>
  "is_space c = (c \<in> {CHR 0x09, CHR 0x0A, CHR 0x0B, CHR 0x0C, CHR 0x0D,
                        CHR 0x1C, CHR 0x1D, CHR 0x1E, CHR 0x1F, CHR 0x20,
                        CHR 0x85, CHR 0xA0})"

definition is_hex :: "char \<Rightarrow> bool" where
  \<comment> \<open>the character class \<open>[0-9A-Fa-f]\<close>\<close>
  "is_hex c = (c \<in> set ''0123456789ABCDEFabcdef'')"

definition lower_char :: "char \<Rightarrow> char" where
  \<comment> \<open>\<open>str.lower\<close> on one character below 256: A-Z and the Latin-1 capitals\<close>
  "lower_char c =
     (let n = (of_char c :: nat)
      in if (65 \<le> n \<and> n \<le> 90) \<or> (192 \<le> n \<and> n \<le> 222 \<and> n \<noteq> 215)
         then char_of (n + 32) else c)"

definition lower :: "string \<Rightarrow> string" where
  "lower s = map lower_char s"

definition startswith :: "string \<Rightarrow> string \<Rightarrow> bool" where
  \<comment> \<open>\<open>s.startswith(p)\<close>\<close>
  "startswith s p = (take (length p) s = p)"

fun rstrip_cr :: "string \<Rightarrow> string" where
  \<comment> \<open>\<open>s.rstrip('\r')\<close>\<close>
  "rstrip_cr [] = []"
| "rstrip_cr (c # cs) =
     (let r = rstrip_cr cs in if r = [] \<and> c = CR then [] else c # r)"

definition strip :: "string \<Rightarrow> string" where
  \<comment> \<open>\<open>s.strip()\<close>\<close>
  "strip s = rev (dropWhile is_space (rev (dropWhile is_space s)))"

section \<open>Prompt tracking\<close>

definition line_is_prompt_start :: "string list \<Rightarrow> string \<Rightarrow> bool" where
  \<comment> \<open>\<open>_line_is_prompt_start\<close>: an empty pattern never counts\<close>
  "line_is_prompt_start PROMPT_PATTERNS line =
     list_ex (\<lambda>p. p \<noteq> [] \<and> startswith line p) PROMPT_PATTERNS"

section \<open>i2cdump capture\<close>

text \<open>
  \<open>_I2C_HEADER_RE = ^\s+00(?:\s+[0-9A-Fa-f]{2}){15}\s*$\<close>.  No alternative of the
  pattern overlaps the next one (a hex digit is not white space), so the match is
  decided greedily from left to right; a final newline is white space and is
  taken by the trailing \<open>\s*\<close>.
\<close>

fun header_cols :: "nat \<Rightarrow> string \<Rightarrow> bool" where
  \<comment> \<open>\<open>(?:\s+[0-9A-Fa-f]{2}){n}\s*$\<close>\<close>
  "header_cols 0 s = (dropWhile is_space s = [])"
| "header_cols (Suc n) s =
     (case dropWhile is_space s of
        a # b # r \<Rightarrow> s \<noteq> [] \<and> is_space (hd s) \<and> is_hex a \<and> is_hex b \<and> header_cols n r
      | _ \<Rightarrow> False)"

definition I2C_HEADER_RE :: "string \<Rightarrow> bool" where
  "I2C_HEADER_RE line =
     (case dropWhile is_space line of
        a # b # r \<Rightarrow> line \<noteq> [] \<and> is_space (hd line) \<and> a = CHR ''0'' \<and> b = CHR ''0''
                     \<and> header_cols 15 r
      | _ \<Rightarrow> False)"

text \<open>
  \<open>_I2C_DATA_ROW_RE = ^[0-9A-Fa-f]{2}:\s+([0-9A-Fa-f]{2}\s+){0,15}[0-9A-Fa-f]{2}\s*$\<close>:
  an address, a colon, white space, and between one and sixteen two-digit tokens
  separated by white space.
\<close>

fun data_tokens :: "nat \<Rightarrow> string \<Rightarrow> bool" where
  \<comment> \<open>at most \<open>n\<close> further tokens, the first one starting right here\<close>
  "data_tokens 0 s = False"
| "data_tokens (Suc n) s =
     (case s of
        a # b # r \<Rightarrow>
          is_hex a \<and> is_hex b \<and>
          (dropWhile is_space r = [] \<or>
           (r \<noteq> [] \<and> is_space (hd r) \<and> data_tokens n (dropWhile is_space r)))
      | _ \<Rightarrow> False)"

definition I2C_DATA_ROW_RE :: "string \<Rightarrow> bool" where
  "I2C_DATA_ROW_RE line =
     (case line of
        a # b # c # r \<Rightarrow>
          is_hex a \<and> is_hex b \<and> c = CHR '':'' \<and> r \<noteq> [] \<and> is_space (hd r)
          \<and> data_tokens 16 (dropWhile is_space r)
      | _ \<Rightarrow> False)"

definition first_row_re :: "string \<Rightarrow> bool" where
  \<comment> \<open>\<open>re.match(r'^00:\s', line)\<close>\<close>
  "first_row_re line =
     (case line of
        a # b # c # d # r \<Rightarrow> a = CHR ''0'' \<and> b = CHR ''0'' \<and> c = CHR '':'' \<and> is_space d
      | _ \<Rightarrow> False)"

definition LAST_ADDR :: string where
  "LAST_ADDR = ''f0''"

definition NO_HEADER :: string where
  "NO_HEADER = ''#NO_HEADER#''"

text \<open>
  What the capture prints when it finalizes: \<open>captured i2cdump (n lines)\<close> at the
  terminal row, \<open>captured (reason) n lines\<close> from \<open>_maybe_finalize_partial\<close>.  The
  event carries the lines that were stored in \<open>_last_captured_dump\<close>.
\<close>

datatype capture_event =
    CapturedDump "string list"
  | CapturedPartial string "string list"

record capture =
  active :: bool                           \<comment> \<open>\<open>_i2c_capture_active\<close>\<close>
  lines :: "string list"                   \<comment> \<open>\<open>_i2c_capture_lines\<close>\<close>
  last_captured_dump :: "string list option"   \<comment> \<open>\<open>_last_captured_dump\<close>\<close>
  printed :: "capture_event list"          \<comment> \<open>the finalizations reported so far\<close>
  fragment :: string                       \<comment> \<open>\<open>_i2c_capture_buffer_fragment\<close>\<close>

definition capture_init :: capture where
  "capture_init =
     \<lparr>active = False, lines = [], last_captured_dump = None, printed = [], fragment = []\<rparr>"

definition maybe_finalize_partial :: "string \<Rightarrow> capture \<Rightarrow> capture" where
  "maybe_finalize_partial reason s =
     (let s1 = (if active s \<and> lines s \<noteq> []
                then s\<lparr>last_captured_dump := Some (lines s),
                       printed := printed s @ [CapturedPartial reason (lines s)]\<rparr>
                else s)
      in s1\<lparr>active := False, lines := []\<rparr>)"

definition capture_row :: "string \<Rightarrow> capture \<Rightarrow> capture" where
  \<comment> \<open>the body of \<open>if _i2c_capture_active:\<close>; the buffer is not empty there, see
      \<open>capture_active_has_lines\<close>\<close>
  "capture_row line s =
     (let s1 = (if I2C_DATA_ROW_RE line \<or> line = hd (lines s)
                then (if line \<noteq> hd (lines s) then s\<lparr>lines := lines s @ [line]\<rparr> else s)
                else (if strip line \<noteq> [] then s\<lparr>lines := lines s @ [line]\<rparr> else s))
      in if startswith (lower line) (LAST_ADDR @ '':'')
         then s1\<lparr>last_captured_dump := Some (lines s1),
                 printed := printed s1 @ [CapturedDump (lines s1)],
                 active := False, lines := []\<rparr>
         else if length (lines s1) > 60 then maybe_finalize_partial ''overflow'' s1
         else s1)"

definition capture_line :: "string list \<Rightarrow> string \<Rightarrow> capture \<Rightarrow> capture" where
  \<comment> \<open>one turn of the \<open>while\<close> loop, on the line already cut off and stripped of \<open>\r\<close>\<close>
  "capture_line PROMPT_PATTERNS line s =
     (if PROMPT_PATTERNS \<noteq> [] \<and> line_is_prompt_start PROMPT_PATTERNS line
      then (if active s then maybe_finalize_partial ''prompt'' s else s)
      else if \<not> active s
      then (if I2C_HEADER_RE line then s\<lparr>active := True, lines := [line]\<rparr>
            else if first_row_re line
            then capture_row line (s\<lparr>active := True, lines := [NO_HEADER]\<rparr>)
            else s)
      else capture_row line s)"

function capture_loop :: "string list \<Rightarrow> capture \<Rightarrow> capture" where
  "capture_loop PROMPT_PATTERNS s =
     (if NL \<notin> set (fragment s) then s
      else let line = takeWhile (\<lambda>c. c \<noteq> NL) (fragment s);
               rest = tl (dropWhile (\<lambda>c. c \<noteq> NL) (fragment s))
           in capture_loop PROMPT_PATTERNS
                (capture_line PROMPT_PATTERNS (rstrip_cr line) (s\<lparr>fragment := rest\<rparr>)))"
  by pat_completeness auto

lemma fragment_maybe_finalize_partial [simp]:
  "fragment (maybe_finalize_partial reason s) = fragment s"
  by (simp add: maybe_finalize_partial_def Let_def)

lemma fragment_capture_row [simp]: "fragment (capture_row line s) = fragment s"
  by (simp add: capture_row_def Let_def)

lemma fragment_capture_line [simp]: "fragment (capture_line pp line s) = fragment s"
  by (simp add: capture_line_def)

lemma length_after_newline:
  "NL \<in> set xs \<Longrightarrow> length (dropWhile (\<lambda>c. c \<noteq> NL) xs) - Suc 0 < length xs"
  using length_dropWhile_le [of "\<lambda>c. c \<noteq> NL" xs] by (cases xs) auto

termination capture_loop
  by (relation "measure (\<lambda>(pp, s). length (fragment s))")
     (simp_all add: length_after_newline)

declare capture_loop.simps [simp del]

definition i2c_capture_feed :: "string list \<Rightarrow> string \<Rightarrow> capture \<Rightarrow> capture" where
  "i2c_capture_feed PROMPT_PATTERNS chunk s =
     (if chunk = [] then s
      else capture_loop PROMPT_PATTERNS (s\<lparr>fragment := fragment s @ chunk\<rparr>))"

text \<open>
  The text of a list of lines as the receiver delivers it, each line ended by a
  newline, and the two quantities the capture properties speak about.
\<close>

definition unlines :: "string list \<Rightarrow> string" where
  "unlines ls = concat (map (\<lambda>l. l @ [NL]) ls)"

fun event_lines :: "capture_event \<Rightarrow> string list" where
  "event_lines (CapturedDump ls) = ls"
| "event_lines (CapturedPartial reason ls) = ls"

definition capture_bounded :: "capture \<Rightarrow> bool" where
  "capture_bounded s \<longleftrightarrow>
     length (lines s) \<le> 60 \<and>
     (\<forall>e \<in> set (printed s). length (event_lines e) \<le> 61) \<and>
     (\<forall>d. last_captured_dump s = Some d \<longrightarrow> length d \<le> 61)"

definition HEADER_LINE :: string where
  \<comment> \<open>\<open>"     " + " ".join(f"{i:02x}" for i in range(16))\<close>\<close>
  "HEADER_LINE = ''     00 01 02 03 04 05 06 07 08 09 0a 0b 0c 0d 0e 0f''"

definition example_rows :: "string list" where
  \<comment> \<open>the first fifteen rows of a dump, one byte each\<close>
  "example_rows =
     [''00: 00'', ''10: 01'', ''20: 02'', ''30: 03'', ''40: 04'', ''50: 05'', ''60: 06'',
      ''70: 07'', ''80: 08'', ''90: 09'', ''a0: 0a'', ''b0: 0b'', ''c0: 0c'', ''d0: 0d'',
      ''e0: 0e'']"

section \<open>Prompt counter\<close>

fun contains :: "string \<Rightarrow> string \<Rightarrow> bool" where
  \<comment> \<open>\<open>p in text\<close>\<close>
  "contains [] p = (p = [])"
| "contains (c # cs) p = (startswith (c # cs) p \<or> contains cs p)"

definition any_prompt_in :: "string list \<Rightarrow> string \<Rightarrow> bool" where
  \<comment> \<open>\<open>_any_prompt_in\<close>: an empty pattern never counts\<close>
  "any_prompt_in PROMPT_PATTERNS text =
     list_ex (\<lambda>p. p \<noteq> [] \<and> contains text p) PROMPT_PATTERNS"

definition inc_prompt_if_in :: "string list \<Rightarrow> string \<Rightarrow> int \<Rightarrow> int" where
  \<comment> \<open>the state is the global \<open>prompt_seq\<close>, which \<open>get_prompt_seq\<close> returns\<close>
  "inc_prompt_if_in PROMPT_PATTERNS text prompt_seq =
     (if PROMPT_PATTERNS \<noteq> [] \<and> any_prompt_in PROMPT_PATTERNS text
      then prompt_seq + 1 else prompt_seq)"

text \<open>
  The patterns are the default \<open>["i2c>"]\<close> unless the user configuration has a list
  under \<open>prompt_patterns\<close> with at least one entry that is not blank: \<open>main\<close> keeps
  the entries whose \<open>strip()\<close> is not empty.  The argument is that list when the key
  is there, its entries that are not strings left out.
\<close>

definition configured_patterns :: "string list option \<Rightarrow> string list" where
  "configured_patterns prompt_patterns =
     (case prompt_patterns of
        None \<Rightarrow> [''i2c>'']
      | Some pp \<Rightarrow>
          (let cleaned = filter (\<lambda>p. strip p \<noteq> []) pp
           in if cleaned \<noteq> [] then cleaned else [''i2c>'']))"

definition occurs_in :: "string \<Rightarrow> string \<Rightarrow> bool" where
  \<comment> \<open>\<open>p\<close> is a substring of \<open>text\<close>\<close>
  "occurs_in p text \<longleftrightarrow> (\<exists>before after. text = before @ p @ after)"

definition has_marker :: "string list \<Rightarrow> string \<Rightarrow> bool" where
  "has_marker PROMPT_PATTERNS text \<longleftrightarrow> (\<exists>p \<in> set PROMPT_PATTERNS. occurs_in p text)"

section \<open>Waiting for the prompt\<close>

text \<open>
  \<open>wait_for_next_prompt\<close> reads the wall clock and the prompt counter, which the
  receiver thread advances meanwhile.  The readings are arguments of the model:
  \<open>time_reads k\<close> is what the \<open>k\<close>-th call of \<open>time.time()\<close> made by the function returns,
  \<open>seq_reads k\<close> what its \<open>k\<close>-th call of \<open>get_prompt_seq()\<close> returns, both counted from
  zero.  Of the time only the sum \<open>time.time()+timeout\<close> and the comparison with it
  are used, so the readings are of any linearly ordered type with an addition.  The
  result tells the value returned, the pauses made with \<open>time.sleep\<close>, in
  milliseconds and in order, and which of the three \<open>return\<close> statements ended
  the call; a call whose loop never ends has no result.
\<close>

definition POST_PROMPT_STABILIZE_MS :: nat where
  "POST_PROMPT_STABILIZE_MS = 5"

definition POLL_MS :: nat where
  \<comment> \<open>\<open>time.sleep(0.01)\<close>\<close>
  "POLL_MS = 10"

datatype wait_exit =
    WaitOff     \<comment> \<open>\<open>if not SCRIPT_WAIT_PROMPT: return prev_seq\<close>\<close>
  | Advanced    \<comment> \<open>\<open>return cur\<close>, after the settle pause\<close>
  | TimedOut    \<comment> \<open>\<open>return get_prompt_seq()\<close>, after the loop\<close>

record wait_result =
  returned :: int
  slept :: "nat list"
  exit_by :: wait_exit

partial_function (option) wait_loop ::
  "(nat \<Rightarrow> 't::{plus,linorder}) \<Rightarrow> (nat \<Rightarrow> int) \<Rightarrow> int \<Rightarrow> 't \<Rightarrow> nat \<Rightarrow> nat \<Rightarrow> nat list
     \<Rightarrow> wait_result option" where
  \<comment> \<open>the \<open>while\<close> loop and the \<open>return\<close> after it; \<open>i\<close> and \<open>j\<close> count the readings of
      the clock and of the counter made so far\<close>
  "wait_loop time_reads seq_reads prev_seq deadline i j pauses =
     (if time_reads i < deadline
      then (if seq_reads j > prev_seq
            then Some \<lparr>returned = seq_reads j, slept = pauses @ [POST_PROMPT_STABILIZE_MS],
                       exit_by = Advanced\<rparr>
            else wait_loop time_reads seq_reads prev_seq deadline (i + 1) (j + 1) (pauses @ [POLL_MS]))
      else Some \<lparr>returned = seq_reads j, slept = pauses, exit_by = TimedOut\<rparr>)"

definition wait_for_next_prompt ::
  \<comment> \<open>the first argument is the global \<open>SCRIPT_WAIT_PROMPT\<close>\<close>
  "bool \<Rightarrow> (nat \<Rightarrow> 't::{plus,linorder}) \<Rightarrow> (nat \<Rightarrow> int) \<Rightarrow> int \<Rightarrow> 't \<Rightarrow> wait_result option" where
  "wait_for_next_prompt script_wait_prompt time_reads seq_reads prev_seq timeout =
     (if \<not> script_wait_prompt
      then Some \<lparr>returned = prev_seq, slept = [], exit_by = WaitOff\<rparr>
      else wait_loop time_reads seq_reads prev_seq (time_reads 0 + timeout) 1 0 [])"

definition example_times :: "nat \<Rightarrow> int" where
  \<comment> \<open>a clock read every ten milliseconds, in milliseconds\<close>
  "example_times k = 100 + 10 * int k"

definition example_seqs :: "int \<Rightarrow> nat \<Rightarrow> int" where
  \<comment> \<open>a counter that stays at \<open>c\<close>\<close>
  "example_seqs c k = c"

definition example_rising :: "nat \<Rightarrow> int" where
  \<comment> \<open>a counter that is 3 at its first two readings and 4 from the third on\<close>
  "example_rising k = (if k < 2 then 3 else 4)"

section \<open>Slot playback\<close>

definition TOKEN_ENTER :: string where
  "TOKEN_ENTER = ''<ENTER>''"

definition ALL_SLOTS :: string where
  \<comment> \<open>the keys of \<open>slot_cmds\<close>, which never change\<close>
  "ALL_SLOTS = ''0123456789abcdefghijklmnopqrstuvwxyz''"

function split_sep :: "string \<Rightarrow> string \<Rightarrow> string \<Rightarrow> string list" where
  \<comment> \<open>\<open>s.split(sep)\<close>, with the piece read so far in \<open>cur\<close>\<close>
  "split_sep sep cur s =
     (if sep \<noteq> [] \<and> startswith s sep then cur # split_sep sep [] (drop (length sep) s)
      else case s of [] \<Rightarrow> [cur] | c # cs \<Rightarrow> split_sep sep (cur @ [c]) cs)"
  by pat_completeness auto

termination split_sep
proof (relation "measure (\<lambda>(sep, cur, s). length s)")
  show "wf (measure (\<lambda>(sep, cur, s). length s))"
    by simp
next
  fix sep cur s :: string
  assume "sep \<noteq> [] \<and> startswith s sep"
  then have "sep \<noteq> []" and "take (length sep) s = sep"
    by (simp_all add: startswith_def)
  then have "s \<noteq> []"
    by auto
  with \<open>sep \<noteq> []\<close>
  show "((sep, [], drop (length sep) s), (sep, cur, s)) \<in> measure (\<lambda>(sep, cur, s). length s)"
    by simp
next
  fix sep cur s :: string and c cs
  assume "s = c # cs"
  then show "((sep, cur @ [c], cs), (sep, cur, s)) \<in> measure (\<lambda>(sep, cur, s). length s)"
    by simp
qed

declare split_sep.simps [simp del]

definition split :: "string \<Rightarrow> string \<Rightarrow> string list" where
  "split s sep = split_sep sep [] s"

definition is_linebreak :: "char \<Rightarrow> bool" where
  \<comment> \<open>the line boundaries of \<open>str.splitlines\<close> below 256\<close>
  "is_linebreak c = (c \<in> {CHR 0x0A, CHR 0x0B, CHR 0x0C, CHR 0x0D, CHR 0x1C, CHR 0x1D,
                            CHR 0x1E, CHR 0x85})"

fun splitlines_from :: "string \<Rightarrow> string \<Rightarrow> string list" where
  \<comment> \<open>\<open>s.splitlines()\<close>, with the line read so far in \<open>cur\<close>; \<open>\r\n\<close> is one boundary\<close>
  "splitlines_from cur [] = (if cur = [] then [] else [cur])"
| "splitlines_from cur [c] = (if is_linebreak c then [cur] else [cur @ [c]])"
| "splitlines_from cur (c # d # cs) =
     (if c = CR \<and> d = NL then cur # splitlines_from [] cs
      else if is_linebreak c then cur # splitlines_from [] (d # cs)
      else splitlines_from (cur @ [c]) (d # cs))"

definition splitlines :: "string \<Rightarrow> string list" where
  "splitlines s = splitlines_from [] s"

text \<open>
  A slot holds \<open>None\<close> or a dictionary whose \<open>type\<close> is \<open>enter\<close>, \<open>combo\<close> (with its
  \<open>seq\<close>) or anything else, read as raw text (with its \<open>data\<close>).
\<close>

datatype slot = Enter | Combo string | Raw string

text \<open>
  A transmission is a call of \<open>send_line\<close> or of \<open>send_enter_only\<close>; what goes to
  the port then is the text and the line suffix of the enter mode, or the suffix
  alone.
\<close>

datatype transmission = SendLine string | SendEnterOnly

record playback =
  FAST_PLAY_MODE :: bool
  SCRIPT_WAIT_PROMPT :: bool
  slot_cmds :: "char \<Rightarrow> slot option"

text \<open>
  The state of one playback: the set \<open>visited\<close>, the \<open>ScriptContext\<close> and the
  transmissions made.  \<open>visited\<close> holds \<open>id(v)\<close> of the slot values on the path; every
  key of \<open>slot_cmds\<close> is given a dictionary of its own when it is set or loaded, so
  the identity of a value is the key it is stored under.  Of the context the flag
  \<open>first_send\<close> is kept and the calls of \<open>wait_for_next_prompt\<close> are counted; the
  sequence number such a call returns comes from the receiver thread.
\<close>

record play_state =
  visited :: "char set"
  first_send :: bool
  waits :: nat
  sent :: "transmission list"

definition wait_ready_if_needed :: "playback \<Rightarrow> play_state \<Rightarrow> play_state" where
  "wait_ready_if_needed cfg st =
     (if FAST_PLAY_MODE cfg then st
      else if \<not> SCRIPT_WAIT_PROMPT cfg then st
      else if first_send st then st\<lparr>first_send := False\<rparr>
      else st\<lparr>waits := waits st + 1\<rparr>)"

definition send_line :: "playback \<Rightarrow> string \<Rightarrow> play_state \<Rightarrow> play_state" where
  \<comment> \<open>\<open>send_line(text, safe=True, script_ctx=ctx)\<close>\<close>
  "send_line cfg text st =
     (let st1 = wait_ready_if_needed cfg st in st1\<lparr>sent := sent st1 @ [SendLine text]\<rparr>)"

definition send_enter_only :: "playback \<Rightarrow> play_state \<Rightarrow> play_state" where
  \<comment> \<open>\<open>send_enter_only(safe=True, script_ctx=ctx)\<close>\<close>
  "send_enter_only cfg st =
     (let st1 = wait_ready_if_needed cfg st in st1\<lparr>sent := sent st1 @ [SendEnterOnly]\<rparr>)"

definition play_line :: "playback \<Rightarrow> string \<Rightarrow> play_state \<Rightarrow> play_state" where
  \<comment> \<open>the body of \<open>for line in lines\<close>\<close>
  "play_line cfg line st =
     (if strip line = [] \<and> line \<noteq> [] then send_enter_only cfg st
      else if line \<noteq> [] then send_line cfg line st
      else st)"

definition play_segment :: "playback \<Rightarrow> string \<Rightarrow> play_state \<Rightarrow> play_state" where
  "play_segment cfg segment st =
     (let lines = splitlines segment;
          st1 = (if lines = [] \<and> segment = [] then send_enter_only cfg st else st)
      in fold (play_line cfg) lines st1)"

fun play_parts :: "playback \<Rightarrow> string list \<Rightarrow> play_state \<Rightarrow> play_state" where
  \<comment> \<open>\<open>for pi,segment in enumerate(parts)\<close>: an enter after every part but the last\<close>
  "play_parts cfg [] st = st"
| "play_parts cfg [segment] st = play_segment cfg segment st"
| "play_parts cfg (segment # rest) st =
     play_parts cfg rest (send_enter_only cfg (play_segment cfg segment st))"

definition play_raw :: "playback \<Rightarrow> string \<Rightarrow> play_state \<Rightarrow> play_state" where
  "play_raw cfg data st = play_parts cfg (split data TOKEN_ENTER) st"

function play_slot_recursive :: "playback \<Rightarrow> char \<Rightarrow> nat \<Rightarrow> play_state \<Rightarrow> play_state" where
  "play_slot_recursive cfg idx_char depth st =
     (if depth > 40 then st
      else if idx_char \<notin> set ALL_SLOTS then st
      else case slot_cmds cfg idx_char of
        None \<Rightarrow> st
      | Some v \<Rightarrow>
          if idx_char \<in> visited st then st
          else
            let st1 = st\<lparr>visited := insert idx_char (visited st)\<rparr>;
                st2 = (case v of
                         Enter \<Rightarrow> send_enter_only cfg st1
                       | Combo seq \<Rightarrow>
                           fold (\<lambda>c s. if c \<in> set ALL_SLOTS
                                        then play_slot_recursive cfg c (depth + 1) s else s)
                             seq st1
                       | Raw data \<Rightarrow> play_raw cfg data st1)
            in st2\<lparr>visited := visited st2 - {idx_char}\<rparr>)"
  by pat_completeness auto

termination play_slot_recursive
  by (relation "measure (\<lambda>(cfg, idx_char, depth, st). 41 - depth)") auto

declare play_slot_recursive.simps [simp del]

definition play_init :: play_state where
  \<comment> \<open>\<open>ScriptContext()\<close> and \<open>set()\<close>, nothing sent yet\<close>
  "play_init = \<lparr>visited = {}, first_send = True, waits = 0, sent = []\<rparr>"

definition play_slot :: "playback \<Rightarrow> char \<Rightarrow> play_state" where
  "play_slot cfg k =
     (if k \<notin> set ALL_SLOTS then play_init else play_slot_recursive cfg k 0 play_init)"

text \<open>
  The transmissions of a raw text as a list: nothing for an empty line, an enter
  for a line of white space, the line itself otherwise; an enter for an empty
  segment; an enter between two segments.
\<close>

definition line_transmissions :: "string \<Rightarrow> transmission list" where
  "line_transmissions line =
     (if line = [] then [] else if strip line = [] then [SendEnterOnly] else [SendLine line])"

definition segment_transmissions :: "string \<Rightarrow> transmission list" where
  "segment_transmissions segment =
     (if segment = [] then [SendEnterOnly]
      else concat (map line_transmissions (splitlines segment)))"

fun join_segments :: "transmission list list \<Rightarrow> transmission list" where
  "join_segments [] = []"
| "join_segments [x] = x"
| "join_segments (x # xs) = x @ [SendEnterOnly] @ join_segments xs"

definition raw_transmissions :: "string \<Rightarrow> transmission list" where
  "raw_transmissions data =
     join_segments (map segment_transmissions (split data TOKEN_ENTER))"

text \<open>
  The same list as the specification words it: a line transmission for each line
  that is not blank, an enter for each blank line and for each segment boundary.
\<close>

definition spec_line_transmissions :: "string \<Rightarrow> transmission list" where
  "spec_line_transmissions line = (if strip line = [] then [SendEnterOnly] else [SendLine line])"

definition spec_raw_transmissions :: "string \<Rightarrow> transmission list" where
  "spec_raw_transmissions data =
     join_segments
       (map (\<lambda>segment. concat (map spec_line_transmissions (splitlines segment)))
          (split data TOKEN_ENTER))"

definition example_playback :: "(char \<Rightarrow> slot option) \<Rightarrow> playback" where
  \<comment> \<open>the defaults: no fast play, scripts wait for the prompt\<close>
  "example_playback slots = \<lparr>FAST_PLAY_MODE = False, SCRIPT_WAIT_PROMPT = True, slot_cmds = slots\<rparr>"

definition without_slot :: "playback \<Rightarrow> char \<Rightarrow> playback" where
  \<comment> \<open>the same registry with slot \<open>k\<close> cleared\<close>
  "without_slot cfg k = cfg\<lparr>slot_cmds := (slot_cmds cfg)(k := None)\<rparr>"

definition play_member :: "playback \<Rightarrow> nat \<Rightarrow> char \<Rightarrow> play_state \<Rightarrow> play_state" where
  \<comment> \<open>the body of \<open>for c in v.get("seq","")\<close> in a combo played at \<open>depth\<close>\<close>
  "play_member cfg depth c s =
     (if c \<in> set ALL_SLOTS then play_slot_recursive cfg c (depth + 1) s else s)"

definition one_slot :: "char \<Rightarrow> slot \<Rightarrow> char \<Rightarrow> slot option" where
  \<comment> \<open>a registry with a single slot set\<close>
  "one_slot k v = (\<lambda>c. if c = k then Some v else None)"



section \<open>Dump compare\<close>

definition ROW_ADDRS :: "string list" where
  \<comment> \<open>\<open>[f"{i:02x}" for i in range(0,256,16)]\<close>\<close>
  "ROW_ADDRS = [''00'', ''10'', ''20'', ''30'', ''40'', ''50'', ''60'', ''70'',
                ''80'', ''90'', ''a0'', ''b0'', ''c0'', ''d0'', ''e0'', ''f0'']"

definition upper_char :: "char \<Rightarrow> char" where
  \<comment> \<open>\<open>str.upper\<close> on an ASCII character; it is only applied to hex digits\<close>
  "upper_char c =
     (let n = (of_char c :: nat) in if 97 \<le> n \<and> n \<le> 122 then char_of (n - 32) else c)"

definition upper :: "string \<Rightarrow> string" where
  "upper s = map upper_char s"

fun split_ws_from :: "string \<Rightarrow> string \<Rightarrow> string list" where
  \<comment> \<open>\<open>s.split()\<close>, with the word read so far in \<open>cur\<close>\<close>
  "split_ws_from cur [] = (if cur = [] then [] else [cur])"
| "split_ws_from cur (c # cs) =
     (if is_space c then (if cur = [] then split_ws_from [] cs else cur # split_ws_from [] cs)
      else split_ws_from (cur @ [c]) cs)"

definition split_ws :: "string \<Rightarrow> string list" where
  "split_ws s = split_ws_from [] s"

definition hex_token :: "string \<Rightarrow> bool" where
  \<comment> \<open>\<open>re.fullmatch(r'[0-9A-Fa-f]{2}', b)\<close>\<close>
  "hex_token b = (case b of [x, y] \<Rightarrow> is_hex x \<and> is_hex y | _ \<Rightarrow> False)"

text \<open>
  \<open>re.match(r'^([0-9A-Fa-f]{2}):\s+(.*)$', ln)\<close>, giving the two groups.  The white
  space after the colon is taken greedily; what follows must be free of newlines
  but for a last one, which \<open>$\<close> allows and \<open>.*\<close> leaves out.  Giving back white
  space cannot turn a failure into a match, as the text that follows stays.
\<close>

definition row_match :: "string \<Rightarrow> (string \<times> string) option" where
  "row_match ln =
     (case ln of
        x # y # c # r \<Rightarrow>
          (let t = dropWhile is_space r
           in if is_hex x \<and> is_hex y \<and> c = CHR '':'' \<and> r \<noteq> [] \<and> is_space (hd r)
                 \<and> NL \<notin> set (butlast t)
              then Some ([x, y], if t \<noteq> [] \<and> last t = NL then butlast t else t)
              else None)
      | _ \<Rightarrow> None)"

definition fit16 :: "string list \<Rightarrow> string list" where
  \<comment> \<open>pad with \<open>--\<close> or cut, to sixteen cells\<close>
  "fit16 bytes_list =
     (if length bytes_list < 16 then bytes_list @ replicate (16 - length bytes_list) ''--''
      else if length bytes_list > 16 then take 16 bytes_list
      else bytes_list)"

type_synonym matrix = "string \<Rightarrow> string list option"

definition parse_line :: "string \<Rightarrow> matrix \<Rightarrow> matrix" where
  \<comment> \<open>the body of \<open>for ln in lines\<close>\<close>
  "parse_line ln m =
     (if startswith ln NO_HEADER then m
      else case row_match ln of
        None \<Rightarrow> m
      | Some (addr, rest) \<Rightarrow>
          m(lower addr \<mapsto> map upper (fit16 (filter hex_token (split_ws (strip rest))))))"

definition fill_row :: "string \<Rightarrow> matrix \<Rightarrow> matrix" where
  \<comment> \<open>the body of \<open>for a in ROW_ADDRS\<close>\<close>
  "fill_row a m = (if m a = None then m(a \<mapsto> replicate 16 ''--'') else m)"

definition parse_dump_to_matrix :: "string list \<Rightarrow> matrix" where
  "parse_dump_to_matrix lns = fold fill_row ROW_ADDRS (fold parse_line lns Map.empty)"

definition row_entry :: "string \<Rightarrow> (string \<times> string list) option" where
  \<comment> \<open>the address a line is filed under and the byte tokens read from it: \<open>addr\<close> and
      \<open>bytes_list\<close> before the row is fitted; \<open>None\<close> for a line that is passed over\<close>
  "row_entry ln =
     (if startswith ln NO_HEADER then None
      else case row_match ln of
        None \<Rightarrow> None
      | Some (addr, rest) \<Rightarrow> Some (lower addr, filter hex_token (split_ws (strip rest))))"

definition hex_value :: "char \<Rightarrow> nat option" where
  "hex_value c =
     (let n = (of_char c :: nat)
      in if 48 \<le> n \<and> n \<le> 57 then Some (n - 48)
         else if 65 \<le> n \<and> n \<le> 70 then Some (n - 55)
         else if 97 \<le> n \<and> n \<le> 102 then Some (n - 87)
         else None)"

definition bits4 :: "nat \<Rightarrow> string" where
  \<comment> \<open>four binary digits\<close>
  "bits4 n = map (\<lambda>k. if (n div 2 ^ k) mod 2 = 1 then CHR ''1'' else CHR ''0'') [3, 2, 1, 0]"

definition hex_to_bin :: "string \<Rightarrow> string" where
  \<comment> \<open>\<open>_hex_to_bin\<close> on what a cell can hold: two hex digits, or \<open>--\<close> which \<open>int\<close> rejects\<close>
  "hex_to_bin h =
     (case h of
        [x, y] \<Rightarrow>
          (case (hex_value x, hex_value y) of
             (Some hi, Some lo) \<Rightarrow> bits4 hi @ ''_'' @ bits4 lo
           | _ \<Rightarrow> ''----_----'')
      | _ \<Rightarrow> ''----_----'')"

datatype py_error = KeyError | IndexError

fun join_sp :: "string list \<Rightarrow> string" where
  \<comment> \<open>\<open>' '.join(tokens)\<close>\<close>
  "join_sp [] = []"
| "join_sp [x] = x"
| "join_sp (x # xs) = x @ '' '' @ join_sp xs"

text \<open>
  One row of a view: for every column the mask \<open>XX\<close> where the two cells agree,
  the rendering of the chosen side where they differ; with the tokens comes the
  number of cells that differ.  \<open>rowA[i]\<close> and \<open>rowB[i]\<close> raise \<open>IndexError\<close> on a
  short row.
\<close>

fun row_tokens ::
  "(string \<Rightarrow> string \<Rightarrow> string) \<Rightarrow> string list \<Rightarrow> string list \<Rightarrow> nat list
   \<Rightarrow> py_error + (string list \<times> nat)" where
  "row_tokens render rowA rowB [] = Inr ([], 0)"
| "row_tokens render rowA rowB (i # is) =
     (if i < length rowA \<and> i < length rowB
      then (case row_tokens render rowA rowB is of
              Inl e \<Rightarrow> Inl e
            | Inr (tokens, changed) \<Rightarrow>
                if rowA ! i = rowB ! i then Inr (''XX'' # tokens, changed)
                else Inr (render (rowA ! i) (rowB ! i) # tokens, changed + 1))
      else Inl IndexError)"

text \<open>
  The rows of a view, with the running totals \<open>changed_rows\<close> and
  \<open>changed_bytes\<close>.  \<open>mA[addr]\<close> and \<open>mB[addr]\<close> raise \<open>KeyError\<close> on a missing row.
\<close>

fun view_rows ::
  "(string \<Rightarrow> string \<Rightarrow> string) \<Rightarrow> matrix \<Rightarrow> matrix \<Rightarrow> string list
   \<Rightarrow> py_error + (string list \<times> nat \<times> nat)" where
  "view_rows render mA mB [] = Inr ([], 0, 0)"
| "view_rows render mA mB (addr # addrs) =
     (case mA addr of
        None \<Rightarrow> Inl KeyError
      | Some rowA \<Rightarrow>
          (case mB addr of
             None \<Rightarrow> Inl KeyError
           | Some rowB \<Rightarrow>
               (case row_tokens render rowA rowB [0..<16] of
                  Inl e \<Rightarrow> Inl e
                | Inr (tokens, changed) \<Rightarrow>
                    (case view_rows render mA mB addrs of
                       Inl e \<Rightarrow> Inl e
                     | Inr (lns, n_rows, n_bytes) \<Rightarrow>
                         Inr ((addr @ '':  '' @ join_sp tokens) # lns,
                              (if changed > 0 then n_rows + 1 else n_rows),
                              n_bytes + changed)))))"

record stats =
  key_a :: string                 \<comment> \<open>\<open>"a"\<close>\<close>
  key_b :: string                 \<comment> \<open>\<open>"b"\<close>\<close>
  changed_rows :: nat
  changed_bytes :: nat

record compare_record = stats +
  timestamp :: string
  hex_lines :: "string list"
  binary_lines :: "string list"

record history_entry =
  batch_timestamp :: string       \<comment> \<open>\<open>"timestamp"\<close>\<close>
  pairs :: "stats list"

definition MAX_CMP_HISTORY_ENTRIES :: nat where
  "MAX_CMP_HISTORY_ENTRIES = 200"

definition MAX_CMP_RESULTS_ENTRIES :: nat where
  "MAX_CMP_RESULTS_ENTRIES = 400"

definition lastn :: "nat \<Rightarrow> 'a list \<Rightarrow> 'a list" where
  \<comment> \<open>\<open>xs[-n:]\<close> for a positive \<open>n\<close>\<close>
  "lastn n xs = drop (length xs - n) xs"

text \<open>
  The state of the compare engine: the dump slots, the two lists in memory, the
  contents of the two files, and the clock, of which \<open>datetime.now()\<close> reads the
  next value.  A write to a file is taken to succeed; the code catches a failed
  write, reports it and goes on.
\<close>

record compare_state =
  i2c_dump_slots :: "string \<Rightarrow> string list option"
  dumpcmp_results :: "compare_record list"      \<comment> \<open>\<open>_dumpcmp_results\<close>\<close>
  results_file :: "compare_record list"         \<comment> \<open>\<open>.dumpcmp_results.json\<close>\<close>
  cmp_history :: "history_entry list"
  history_file :: "history_entry list"          \<comment> \<open>\<open>.dumpcmp_history.json\<close>\<close>
  clock :: "nat \<Rightarrow> string"
  ticks :: nat

definition save_cmp_results :: "compare_state \<Rightarrow> compare_state" where
  "save_cmp_results s =
     (if dumpcmp_results s = [] then s
      else s\<lparr>results_file := lastn MAX_CMP_RESULTS_ENTRIES (dumpcmp_results s)\<rparr>)"

definition save_cmp_history :: "compare_state \<Rightarrow> compare_state" where
  "save_cmp_history s = s\<lparr>history_file := lastn MAX_CMP_HISTORY_ENTRIES (cmp_history s)\<rparr>"

definition store_cmp_result :: "compare_record \<Rightarrow> compare_state \<Rightarrow> compare_state" where
  "store_cmp_result entry s =
     (let s1 = s\<lparr>dumpcmp_results := dumpcmp_results s @ [entry]\<rparr>;
          s2 = (if length (dumpcmp_results s1) > MAX_CMP_RESULTS_ENTRIES
                then s1\<lparr>dumpcmp_results := lastn MAX_CMP_RESULTS_ENTRIES (dumpcmp_results s1)\<rparr>
                else s1)
      in save_cmp_results s2)"

definition now :: "compare_state \<Rightarrow> string \<times> compare_state" where
  \<comment> \<open>\<open>datetime.now().strftime("%Y-%m-%d %H:%M:%S")\<close>\<close>
  "now s = (clock s (ticks s), s\<lparr>ticks := ticks s + 1\<rparr>)"

definition slot_dump :: "compare_state \<Rightarrow> string \<Rightarrow> string list option" where
  \<comment> \<open>\<open>i2c_dump_slots.get(a)\<close>, \<open>None\<close> also for what \<open>not da\<close> rejects\<close>
  "slot_dump s a = (case i2c_dump_slots s a of Some (l # ls) \<Rightarrow> Some (l # ls) | _ \<Rightarrow> None)"

definition dump_compare_single ::
  "string \<Rightarrow> string \<Rightarrow> compare_state \<Rightarrow> py_error + (compare_state \<times> stats option)" where
  "dump_compare_single a b s =
     (case slot_dump s a of
        None \<Rightarrow> Inr (s, None)
      | Some da \<Rightarrow>
     (case slot_dump s b of
        None \<Rightarrow> Inr (s, None)
      | Some db \<Rightarrow>
     (let mA = parse_dump_to_matrix da; mB = parse_dump_to_matrix db
      in case view_rows (\<lambda>x y. x) mA mB ROW_ADDRS of
        Inl e \<Rightarrow> Inl e
      | Inr (hexA, n_rows, n_bytes) \<Rightarrow>
     (case view_rows (\<lambda>x y. y) mA mB ROW_ADDRS of
        Inl e \<Rightarrow> Inl e
      | Inr (hexB, _) \<Rightarrow>
     (case view_rows (\<lambda>x y. hex_to_bin x) mA mB ROW_ADDRS of
        Inl e \<Rightarrow> Inl e
      | Inr (binA, _) \<Rightarrow>
     (case view_rows (\<lambda>x y. hex_to_bin y) mA mB ROW_ADDRS of
        Inl e \<Rightarrow> Inl e
      | Inr (binB, _) \<Rightarrow>
     (let (ts, s1) = now s;
          entry = \<lparr>key_a = a, key_b = b, changed_rows = n_rows, changed_bytes = n_bytes,
                   timestamp = ts,
                   hex_lines = [''hex'', '' disk:'' @ a, HEADER_LINE] @ hexA
                               @ [''disk:'' @ b, HEADER_LINE] @ hexB,
                   binary_lines = ['''', ''binary'', ''disk:'' @ a, HEADER_LINE] @ binA
                               @ [''disk:'' @ b, HEADER_LINE] @ binB\<rparr>
      in Inr (store_cmp_result entry s1,
              Some \<lparr>key_a = a, key_b = b, changed_rows = n_rows,
                     changed_bytes = n_bytes\<rparr>))))))))"

fun compare_pairs ::
  "(string \<times> string) list \<Rightarrow> compare_state \<times> stats list
   \<Rightarrow> py_error + (compare_state \<times> stats list)" where
  \<comment> \<open>\<open>for idx,(a,b) in enumerate(pairs,1)\<close>, with \<open>session_stats\<close>\<close>
  "compare_pairs [] (s, session_stats) = Inr (s, session_stats)"
| "compare_pairs ((a, b) # rest) (s, session_stats) =
     (case dump_compare_single a b s of
        Inl e \<Rightarrow> Inl e
      | Inr (s1, None) \<Rightarrow> compare_pairs rest (s1, session_stats)
      | Inr (s1, Some st) \<Rightarrow> compare_pairs rest (s1, session_stats @ [st]))"

definition multi_dump_compare ::
  "(string \<times> string) list \<Rightarrow> compare_state \<Rightarrow> py_error + compare_state" where
  "multi_dump_compare prs s =
     (if prs = [] then Inr s
      else case compare_pairs prs (s, []) of
        Inl e \<Rightarrow> Inl e
      | Inr (s1, session_stats) \<Rightarrow>
          (let (ts, s2) = now s1;
               entry = \<lparr>batch_timestamp = ts, pairs = session_stats\<rparr>;
               s3 = s2\<lparr>cmp_history := cmp_history s2 @ [entry]\<rparr>
           in Inr (save_cmp_history s3)))"

definition masked_row :: "string \<Rightarrow> string" where
  \<comment> \<open>a rendered row of which every cell is the mask\<close>
  "masked_row addr = addr @ '':  '' @ join_sp (replicate 16 ''XX'')"

definition rows16 :: "matrix \<Rightarrow> bool" where
  \<comment> \<open>every row of the matrix has sixteen cells\<close>
  "rows16 m \<longleftrightarrow> (\<forall>a row. m a = Some row \<longrightarrow> length row = 16)"

definition masked_record :: "string \<Rightarrow> string \<Rightarrow> compare_record" where
  \<comment> \<open>the record of a comparison in which no cell differs\<close>
  "masked_record a ts =
     \<lparr>key_a = a, key_b = a, changed_rows = 0, changed_bytes = 0, timestamp = ts,
      hex_lines = [''hex'', '' disk:'' @ a, HEADER_LINE] @ map masked_row ROW_ADDRS
                  @ [''disk:'' @ a, HEADER_LINE] @ map masked_row ROW_ADDRS,
      binary_lines = ['''', ''binary'', ''disk:'' @ a, HEADER_LINE] @ map masked_row ROW_ADDRS
                  @ [''disk:'' @ a, HEADER_LINE] @ map masked_row ROW_ADDRS\<rparr>"

definition example_compare_state :: compare_state where
  \<comment> \<open>two dumps saved, nothing compared yet\<close>
  "example_compare_state =
     \<lparr>i2c_dump_slots = (\<lambda>k. None)(''0'' := Some [HEADER_LINE, ''00: 01 02'', ''noise''],
                                    ''1'' := Some [NO_HEADER, ''00: 01 03'', ''f0: aa'']),
      dumpcmp_results = [], results_file = [], cmp_history = [], history_file = [],
      clock = (\<lambda>n. ''2025-09-04 12:00:00''), ticks = 0\<rparr>"

definition summary_of :: "compare_record \<Rightarrow> stats" where
  \<comment> \<open>the slot keys and counts of a record, as a batch keeps them\<close>
  "summary_of e = \<lparr>key_a = key_a e, key_b = key_b e, changed_rows = changed_rows e,
                    changed_bytes = changed_bytes e\<rparr>"

definition after_pairs :: "(string \<times> string) list \<Rightarrow> compare_state \<Rightarrow> compare_state option" where
  \<comment> \<open>the state a batch is in when it has compared the pairs \<open>prs\<close>\<close>
  "after_pairs prs s = (case compare_pairs prs (s, []) of Inl e \<Rightarrow> None | Inr (s1, _) \<Rightarrow> Some s1)"

definition after_batch :: "(string \<times> string) list \<Rightarrow> compare_state \<Rightarrow> compare_state option" where
  \<comment> \<open>the state after the whole batch\<close>
  "after_batch prs s = (case multi_dump_compare prs s of Inl e \<Rightarrow> None | Inr s1 \<Rightarrow> Some s1)"

text \<open>
  The two commands of the command loop that compare: \<open>/dumpcmp a b\<close> and the
  batch form with its list of pairs.
\<close>

datatype command = DumpCmp string string | DumpCmpMulti "(string \<times> string) list"

definition run_command :: "command \<Rightarrow> compare_state \<Rightarrow> py_error + compare_state" where
  "run_command c s =
     (case c of
        DumpCmp a b \<Rightarrow>
          (case dump_compare_single a b s of Inl e \<Rightarrow> Inl e | Inr (s1, _) \<Rightarrow> Inr s1)
      | DumpCmpMulti prs \<Rightarrow> multi_dump_compare prs s)"

fun run_commands :: "command list \<Rightarrow> compare_state \<Rightarrow> py_error + compare_state" where
  "run_commands [] s = Inr s"
| "run_commands (c # cs) s =
     (case run_command c s of Inl e \<Rightarrow> Inl e | Inr s1 \<Rightarrow> run_commands cs s1)"

definition comparable :: "compare_state \<Rightarrow> string \<times> string \<Rightarrow> bool" where
  \<comment> \<open>both slots of the pair hold a dump\<close>
  "comparable s p \<longleftrightarrow> slot_dump s (fst p) \<noteq> None \<and> slot_dump s (snd p) \<noteq> None"

definition record_keys :: "compare_record \<Rightarrow> string \<times> string" where
  "record_keys e = (key_a e, key_b e)"

definition LONG_ROW :: string where
  \<comment> \<open>a row of seventeen bytes\<close>
  "LONG_ROW = ''10: 00 01 02 03 04 05 06 07 08 09 0a 0b 0c 0d 0e 0f 10''"

section \<open>Properties of the capture\<close>

lemma fragment_update_outward:
  "(s\<lparr>fragment := x\<rparr>)\<lparr>lines := L\<rparr> = (s\<lparr>lines := L\<rparr>)\<lparr>fragment := x\<rparr>"
  "(s\<lparr>fragment := x\<rparr>)\<lparr>active := a\<rparr> = (s\<lparr>active := a\<rparr>)\<lparr>fragment := x\<rparr>"
  "(s\<lparr>fragment := x\<rparr>)\<lparr>last_captured_dump := d\<rparr> = (s\<lparr>last_captured_dump := d\<rparr>)\<lparr>fragment := x\<rparr>"
  "(s\<lparr>fragment := x\<rparr>)\<lparr>printed := p\<rparr> = (s\<lparr>printed := p\<rparr>)\<lparr>fragment := x\<rparr>"
  by simp_all

lemma mfp_fragment_update:
  "maybe_finalize_partial r (s\<lparr>fragment := x\<rparr>) = (maybe_finalize_partial r s)\<lparr>fragment := x\<rparr>"
  by (simp add: maybe_finalize_partial_def)

lemma capture_row_fragment_update:
  "capture_row l (s\<lparr>fragment := x\<rparr>) = (capture_row l s)\<lparr>fragment := x\<rparr>"
  by (simp add: capture_row_def Let_def mfp_fragment_update fragment_update_outward)

lemma capture_line_fragment_update:
  "capture_line pp l (s\<lparr>fragment := x\<rparr>) = (capture_line pp l s)\<lparr>fragment := x\<rparr>"
  by (simp add: capture_line_def mfp_fragment_update capture_row_fragment_update fragment_update_outward)

lemma fold_capture_line_fragment:
  "fold (capture_line pp) ls (s\<lparr>fragment := x\<rparr>) = (fold (capture_line pp) ls s)\<lparr>fragment := x\<rparr>"
  by (induction ls arbitrary: s) (simp_all add: capture_line_fragment_update)

lemma capture_loop_line:
  assumes "NL \<notin> set l" and "fragment s = l @ NL # rest"
  shows "capture_loop pp s = capture_loop pp ((capture_line pp (rstrip_cr l) s)\<lparr>fragment := rest\<rparr>)"
proof -
  have tw: "takeWhile (\<lambda>c. c \<noteq> NL) (l @ NL # rest) = l"
    using assms(1) by (induction l) auto
  have dw: "dropWhile (\<lambda>c. c \<noteq> NL) (l @ NL # rest) = NL # rest"
    using assms(1) by (induction l) auto
  show ?thesis
    by (subst capture_loop.simps) (simp add: assms(2) tw dw capture_line_fragment_update)
qed

lemma capture_loop_done: "NL \<notin> set (fragment s) \<Longrightarrow> capture_loop pp s = s"
  by (subst capture_loop.simps) simp

lemma capture_loop_unlines:
  assumes "\<forall>l \<in> set ls. NL \<notin> set l" and "fragment s = unlines ls @ tail"
  shows "capture_loop pp s =
         capture_loop pp ((fold (capture_line pp) (map rstrip_cr ls) s)\<lparr>fragment := tail\<rparr>)"
  using assms
proof (induction ls arbitrary: s)
  case Nil
  then have "s\<lparr>fragment := tail\<rparr> = s" by (simp add: unlines_def)
  then show ?case by simp
next
  case (Cons l ls)
  have nl: "NL \<notin> set l" using Cons.prems(1) by simp
  have fr: "fragment s = l @ NL # (unlines ls @ tail)"
    using Cons.prems(2) by (simp add: unlines_def)
  let ?s1 = "(capture_line pp (rstrip_cr l) s)\<lparr>fragment := unlines ls @ tail\<rparr>"
  have "capture_loop pp s = capture_loop pp ?s1"
    by (rule capture_loop_line [OF nl fr])
  also have "\<dots> = capture_loop pp ((fold (capture_line pp) (map rstrip_cr ls) ?s1)\<lparr>fragment := tail\<rparr>)"
    using Cons.prems(1) by (intro Cons.IH) simp_all
  finally show ?case by (simp add: fold_capture_line_fragment)
qed

lemma feed_unlines:
  assumes "\<forall>l \<in> set ls. NL \<notin> set l" and "fragment s = []" and "ls \<noteq> []"
  shows "i2c_capture_feed pp (unlines ls) s = fold (capture_line pp) (map rstrip_cr ls) s"
proof -
  have ne: "unlines ls \<noteq> []"
    using assms(3) by (cases ls) (simp_all add: unlines_def)
  let ?s0 = "s\<lparr>fragment := fragment s @ unlines ls\<rparr>"
  have "capture_loop pp ?s0 =
        capture_loop pp ((fold (capture_line pp) (map rstrip_cr ls) ?s0)\<lparr>fragment := []\<rparr>)"
    by (rule capture_loop_unlines [OF assms(1)]) (simp add: assms(2))
  also have "\<dots> = (fold (capture_line pp) (map rstrip_cr ls) ?s0)\<lparr>fragment := []\<rparr>"
    by (rule capture_loop_done) simp
  also have "\<dots> = (fold (capture_line pp) (map rstrip_cr ls) s)\<lparr>fragment := []\<rparr>"
    by (simp add: fold_capture_line_fragment)
  also have "\<dots> = fold (capture_line pp) (map rstrip_cr ls) s"
  proof -
    have "fragment (fold (capture_line pp) xs s) = fragment s" for xs
      by (induction xs arbitrary: s) simp_all
    then show ?thesis by (simp add: assms(2))
  qed
  finally show ?thesis using ne by (simp add: i2c_capture_feed_def)
qed

lemma capture_loop_more:
  "capture_loop pp ((capture_loop pp s)\<lparr>fragment := fragment (capture_loop pp s) @ c\<rparr>)
   = capture_loop pp (s\<lparr>fragment := fragment s @ c\<rparr>)"
proof (induction pp s rule: capture_loop.induct)
  case (1 pp s)
  show ?case
  proof (cases "NL \<in> set (fragment s)")
    case False
    then show ?thesis by (simp add: capture_loop_done)
  next
    case True
    let ?line = "takeWhile (\<lambda>c. c \<noteq> NL) (fragment s)"
    let ?rest = "tl (dropWhile (\<lambda>c. c \<noteq> NL) (fragment s))"
    let ?s = "capture_line pp (rstrip_cr ?line) (s\<lparr>fragment := ?rest\<rparr>)"
    have "dropWhile (\<lambda>c. c \<noteq> NL) xs = NL # tl (dropWhile (\<lambda>c. c \<noteq> NL) xs)"
      if "NL \<in> set xs" for xs
      using that by (induction xs) auto
    then have "?line @ NL # ?rest = ?line @ dropWhile (\<lambda>c. c \<noteq> NL) (fragment s)"
      using True by simp
    then have split: "fragment s = ?line @ NL # ?rest"
      by (simp only: takeWhile_dropWhile_id)
    have nl: "NL \<notin> set ?line"
      by (auto dest: set_takeWhileD)
    have left: "capture_loop pp s = capture_loop pp ?s"
      using True by (subst capture_loop.simps) (simp add: Let_def)
    have "capture_loop pp (s\<lparr>fragment := fragment s @ c\<rparr>)
          = capture_loop pp ((capture_line pp (rstrip_cr ?line) (s\<lparr>fragment := fragment s @ c\<rparr>))
                              \<lparr>fragment := ?rest @ c\<rparr>)"
      by (rule capture_loop_line [OF nl]) (use split in simp)
    also have "\<dots> = capture_loop pp (?s\<lparr>fragment := fragment ?s @ c\<rparr>)"
      by (simp add: capture_line_fragment_update)
    also have "\<dots> = capture_loop pp ((capture_loop pp ?s)\<lparr>fragment := fragment (capture_loop pp ?s) @ c\<rparr>)"
      using True by (intro "1.IH" [symmetric]) simp_all
    finally show ?thesis
      by (simp add: left)
  qed
qed


lemma feed_append:
  "i2c_capture_feed pp b (i2c_capture_feed pp a s) = i2c_capture_feed pp (a @ b) s"
proof (cases "a = [] \<or> b = []")
  case True
  then show ?thesis by (auto simp: i2c_capture_feed_def)
next
  case False
  let ?s = "s\<lparr>fragment := fragment s @ a\<rparr>"
  have "capture_loop pp ((capture_loop pp ?s)\<lparr>fragment := fragment (capture_loop pp ?s) @ b\<rparr>)
        = capture_loop pp (?s\<lparr>fragment := fragment ?s @ b\<rparr>)"
    by (rule capture_loop_more)
  moreover have "?s\<lparr>fragment := fragment ?s @ b\<rparr> = s\<lparr>fragment := fragment s @ a @ b\<rparr>"
    by simp
  ultimately show ?thesis
    using False by (simp add: i2c_capture_feed_def)
qed

lemma fold_feed_concat:
  "fold (i2c_capture_feed pp) chunks s = i2c_capture_feed pp (concat chunks) s"
proof (induction chunks arbitrary: s)
  case Nil
  then show ?case by (simp add: i2c_capture_feed_def)
next
  case (Cons c chunks)
  then show ?case by (simp add: feed_append)
qed

lemma header_first_space: "I2C_HEADER_RE l \<Longrightarrow> l \<noteq> [] \<and> is_space (hd l)"
  by (auto simp: I2C_HEADER_RE_def split: list.splits)

lemma data_first_hex: "I2C_DATA_ROW_RE l \<Longrightarrow> l \<noteq> [] \<and> is_hex (hd l)"
  by (auto simp: I2C_DATA_ROW_RE_def split: list.splits)

lemma hex_not_space: "is_hex c \<Longrightarrow> \<not> is_space c"
  by (auto simp: is_hex_def is_space_def)

lemma header_not_data: "I2C_HEADER_RE h \<Longrightarrow> I2C_DATA_ROW_RE r \<Longrightarrow> r \<noteq> h"
  using header_first_space data_first_hex hex_not_space by blast

lemma capture_line_header:
  assumes "\<not> active s" "\<not> line_is_prompt_start pp h" "I2C_HEADER_RE h"
  shows "capture_line pp h s = s\<lparr>active := True, lines := [h]\<rparr>"
  using assms by (simp add: capture_line_def)

lemma capture_line_row:
  assumes "active s" "lines s = h # pre" "I2C_HEADER_RE h" "I2C_DATA_ROW_RE r"
    "\<not> line_is_prompt_start pp r" "\<not> startswith (lower r) (LAST_ADDR @ '':'')"
    "length (lines s) < 60"
  shows "capture_line pp r s = s\<lparr>lines := lines s @ [r]\<rparr>"
proof -
  have "r \<noteq> h" using assms(3,4) by (rule header_not_data)
  then show ?thesis
    using assms by (simp add: capture_line_def capture_row_def)
qed

lemma capture_line_last_row:
  assumes "active s" "lines s = h # pre" "I2C_HEADER_RE h" "I2C_DATA_ROW_RE r"
    "\<not> line_is_prompt_start pp r" "startswith (lower r) (LAST_ADDR @ '':'')"
  shows "capture_line pp r s =
         s\<lparr>active := False, lines := [], last_captured_dump := Some (lines s @ [r]),
           printed := printed s @ [CapturedDump (lines s @ [r])]\<rparr>"
proof -
  have "r \<noteq> h" using assms(3,4) by (rule header_not_data)
  then show ?thesis
    using assms by (simp add: capture_line_def capture_row_def)
qed

lemma capture_line_prompt:
  assumes "active s" "lines s \<noteq> []" "line_is_prompt_start pp p"
  shows "capture_line pp p s =
         s\<lparr>active := False, lines := [], last_captured_dump := Some (lines s),
           printed := printed s @ [CapturedPartial ''prompt'' (lines s)]\<rparr>"
proof -
  have "pp \<noteq> []" using assms(3) by (auto simp: line_is_prompt_start_def)
  then show ?thesis
    using assms by (simp add: capture_line_def maybe_finalize_partial_def)
qed

lemma fold_capture_rows:
  assumes "active s" "lines s = h # pre" "I2C_HEADER_RE h"
    "\<forall>r \<in> set rs. I2C_DATA_ROW_RE r \<and> \<not> line_is_prompt_start pp r
                    \<and> \<not> startswith (lower r) (LAST_ADDR @ '':'')"
    "length (lines s) + length rs \<le> 60"
  shows "fold (capture_line pp) rs s = s\<lparr>lines := lines s @ rs\<rparr>"
  using assms
proof (induction rs arbitrary: s pre)
  case Nil
  then show ?case by simp
next
  case (Cons r rs)
  have step: "capture_line pp r s = s\<lparr>lines := lines s @ [r]\<rparr>"
    using Cons.prems by (intro capture_line_row [where h = h and pre = pre]) simp_all
  have "fold (capture_line pp) rs (s\<lparr>lines := lines s @ [r]\<rparr>)
        = (s\<lparr>lines := lines s @ [r]\<rparr>)\<lparr>lines := lines (s\<lparr>lines := lines s @ [r]\<rparr>) @ rs\<rparr>"
    using Cons.prems by (intro Cons.IH [where pre = "pre @ [r]"]) simp_all
  then show ?case by (simp add: step)
qed

text \<open>
  Claim C1, as amended.  A header line, fifteen data rows that are not at the
  terminal address and a sixteenth data row at the terminal address \<open>f0\<close>, none of
  them taken for a prompt line, each ended by a newline and fed, in whatever
  chunks the text arrives, to an idle capture with an empty fragment buffer: the
  capture reports exactly one dump, at the
  terminal row, made of the seventeen lines (stripped of trailing carriage
  returns), stores it as the most recent capture and is idle again with an empty
  buffer.  The tests on a line are the ones the code applies, after
  \<open>rstrip('\r')\<close>.
\<close>

theorem capture_complete_dump:
  assumes idle: "\<not> active s" "fragment s = []"
    and header: "I2C_HEADER_RE (rstrip_cr h)"
    and rows: "length rows = 15"
      "\<forall>r \<in> set rows. I2C_DATA_ROW_RE (rstrip_cr r)
                     \<and> \<not> startswith (lower (rstrip_cr r)) (LAST_ADDR @ '':'')"
    and last: "I2C_DATA_ROW_RE (rstrip_cr t)"
      "startswith (lower (rstrip_cr t)) (LAST_ADDR @ '':'')"
    and no_nl: "\<forall>l \<in> set (h # rows @ [t]). NL \<notin> set l"
    and no_prompt: "\<forall>l \<in> set (h # rows @ [t]). \<not> line_is_prompt_start pp (rstrip_cr l)"
    and chunks: "concat chunks = unlines (h # rows @ [t])"
  shows "fold (i2c_capture_feed pp) chunks s =
           s\<lparr>active := False, lines := [],
             last_captured_dump := Some (map rstrip_cr (h # rows @ [t])),
             printed := printed s @ [CapturedDump (map rstrip_cr (h # rows @ [t]))]\<rparr>
         \<and> length (map rstrip_cr (h # rows @ [t])) = 17"
proof -
  let ?h = "rstrip_cr h" and ?rs = "map rstrip_cr rows" and ?t = "rstrip_cr t"
  let ?s1 = "s\<lparr>active := True, lines := [?h]\<rparr>"
  let ?s2 = "?s1\<lparr>lines := lines ?s1 @ ?rs\<rparr>"
  have "i2c_capture_feed pp (unlines (h # rows @ [t])) s
        = fold (capture_line pp) (map rstrip_cr (h # rows @ [t])) s"
    using no_nl idle(2) by (intro feed_unlines) simp_all
  then have feed: "fold (i2c_capture_feed pp) chunks s
                   = fold (capture_line pp) (map rstrip_cr (h # rows @ [t])) s"
    by (simp only: fold_feed_concat chunks)
  have s1: "capture_line pp ?h s = ?s1"
    using idle(1) header no_prompt by (intro capture_line_header) simp_all
  have s2: "fold (capture_line pp) ?rs ?s1 = ?s2"
    using header rows no_prompt
    by (intro fold_capture_rows [where h = ?h and pre = "[]"]) simp_all
  have s3: "capture_line pp ?t ?s2 =
            ?s2\<lparr>active := False, lines := [], last_captured_dump := Some (lines ?s2 @ [?t]),
                 printed := printed ?s2 @ [CapturedDump (lines ?s2 @ [?t])]\<rparr>"
    using header last no_prompt
    by (intro capture_line_last_row [where h = ?h and pre = ?rs]) simp_all
  have "fold (capture_line pp) (map rstrip_cr (h # rows @ [t])) s
        = capture_line pp ?t (fold (capture_line pp) ?rs (capture_line pp ?h s))"
    by simp
  also have "\<dots> = ?s2\<lparr>active := False, lines := [], last_captured_dump := Some (lines ?s2 @ [?t]),
                 printed := printed ?s2 @ [CapturedDump (lines ?s2 @ [?t])]\<rparr>"
    by (simp only: s1 s2 s3)
  finally show ?thesis
    using rows(1) by (simp add: feed)
qed

theorem capture_complete_dump_witness:
  "\<not> active capture_init \<and> fragment capture_init = [] \<and> I2C_HEADER_RE (rstrip_cr HEADER_LINE)
   \<and> length example_rows = 15
   \<and> I2C_DATA_ROW_RE (rstrip_cr (''F0: ff'' @ [CR]))
   \<and> startswith (lower (rstrip_cr (''F0: ff'' @ [CR]))) (LAST_ADDR @ '':'')
   \<and> concat [take 40 (unlines (HEADER_LINE # example_rows @ [''F0: ff'' @ [CR]])),
               drop 40 (unlines (HEADER_LINE # example_rows @ [''F0: ff'' @ [CR]]))]
      = unlines (HEADER_LINE # example_rows @ [''F0: ff'' @ [CR]])
   \<and> fold (i2c_capture_feed [''i2c>''])
        [take 40 (unlines (HEADER_LINE # example_rows @ [''F0: ff'' @ [CR]])),
         drop 40 (unlines (HEADER_LINE # example_rows @ [''F0: ff'' @ [CR]]))]
        capture_init
      = capture_init\<lparr>last_captured_dump := Some (HEADER_LINE # example_rows @ [''F0: ff'']),
                       printed := [CapturedDump (HEADER_LINE # example_rows @ [''F0: ff''])]\<rparr>"
proof -
  let ?t = "''F0: ff'' @ [CR]"
  have idle: "\<not> active capture_init" "fragment capture_init = []"
    by (simp_all add: capture_init_def)
  have header: "I2C_HEADER_RE (rstrip_cr HEADER_LINE)"
    by code_simp
  have rows: "length example_rows = 15"
    "\<forall>r \<in> set example_rows. I2C_DATA_ROW_RE (rstrip_cr r)
        \<and> \<not> startswith (lower (rstrip_cr r)) (LAST_ADDR @ '':'')"
    by code_simp+
  have last: "I2C_DATA_ROW_RE (rstrip_cr ?t)"
    "startswith (lower (rstrip_cr ?t)) (LAST_ADDR @ '':'')"
    by code_simp+
  have no_nl: "\<forall>l \<in> set (HEADER_LINE # example_rows @ [?t]). NL \<notin> set l"
    by code_simp
  have no_prompt: "\<forall>l \<in> set (HEADER_LINE # example_rows @ [?t]).
                     \<not> line_is_prompt_start [''i2c>''] (rstrip_cr l)"
    by code_simp
  have stripped: "map rstrip_cr (HEADER_LINE # example_rows @ [?t])
                  = HEADER_LINE # example_rows @ [''F0: ff'']"
    by code_simp
  have init: "capture_init\<lparr>active := False, lines := []\<rparr> = capture_init"
    "printed capture_init = []"
    by (simp_all add: capture_init_def)
  have chunks: "concat [take 40 (unlines (HEADER_LINE # example_rows @ [?t])),
                        drop 40 (unlines (HEADER_LINE # example_rows @ [?t]))]
                = unlines (HEADER_LINE # example_rows @ [?t])"
    by simp
  show ?thesis
    using capture_complete_dump [OF idle header rows last no_nl no_prompt chunks]
    by (simp only: stripped idle header rows last init chunks append_Nil simp_thms)
qed

text \<open>
  The claim as it is written does not keep the first fifteen rows away from the
  terminal address: when every row is \<open>f0: 00\<close> the capture finalizes at the first
  of them, with two lines, and drops the fifteen rows that follow.
\<close>

theorem capture_complete_dump_counterexample:
  "I2C_HEADER_RE HEADER_LINE \<and> I2C_DATA_ROW_RE ''f0: 00''
   \<and> startswith (lower ''f0: 00'') (LAST_ADDR @ '':'')
   \<and> printed (i2c_capture_feed [''i2c>'']
                 (unlines (HEADER_LINE # replicate 16 ''f0: 00'')) capture_init)
       = [CapturedDump [HEADER_LINE, ''f0: 00'']]"
  by code_simp

text \<open>
  Claim C2, as amended.  A header line, three data rows that are not at the terminal
  address and then a line that starts with a prompt marker, header and rows being
  lines that do not themselves start with a prompt marker, fed in whatever chunks to
  an idle capture with an empty fragment buffer: the capture reports exactly one
  dump, with the reason \<open>prompt\<close>, made of the header and the three rows (four
  lines), keeps it as the most recent capture and is idle again.
\<close>

theorem capture_prompt_interrupt:
  assumes idle: "\<not> active s" "fragment s = []"
    and header: "I2C_HEADER_RE (rstrip_cr h)"
    and rows: "length rows = 3"
      "\<forall>r \<in> set rows. I2C_DATA_ROW_RE (rstrip_cr r)
                     \<and> \<not> startswith (lower (rstrip_cr r)) (LAST_ADDR @ '':'')"
    and prompt: "line_is_prompt_start pp (rstrip_cr p)"
    and no_nl: "\<forall>l \<in> set (h # rows @ [p]). NL \<notin> set l"
    and no_prompt: "\<forall>l \<in> set (h # rows). \<not> line_is_prompt_start pp (rstrip_cr l)"
    and chunks: "concat chunks = unlines (h # rows @ [p])"
  shows "fold (i2c_capture_feed pp) chunks s =
           s\<lparr>active := False, lines := [],
             last_captured_dump := Some (map rstrip_cr (h # rows)),
             printed := printed s @ [CapturedPartial ''prompt'' (map rstrip_cr (h # rows))]\<rparr>
         \<and> length (map rstrip_cr (h # rows)) = 4"
proof -
  let ?h = "rstrip_cr h" and ?rs = "map rstrip_cr rows" and ?p = "rstrip_cr p"
  let ?s1 = "s\<lparr>active := True, lines := [?h]\<rparr>"
  let ?s2 = "?s1\<lparr>lines := lines ?s1 @ ?rs\<rparr>"
  have "i2c_capture_feed pp (unlines (h # rows @ [p])) s
        = fold (capture_line pp) (map rstrip_cr (h # rows @ [p])) s"
    using no_nl idle(2) by (intro feed_unlines) simp_all
  then have feed: "fold (i2c_capture_feed pp) chunks s
                   = fold (capture_line pp) (map rstrip_cr (h # rows @ [p])) s"
    by (simp only: fold_feed_concat chunks)
  have s1: "capture_line pp ?h s = ?s1"
    using idle(1) header no_prompt by (intro capture_line_header) simp_all
  have s2: "fold (capture_line pp) ?rs ?s1 = ?s2"
    using header rows no_prompt
    by (intro fold_capture_rows [where h = ?h and pre = "[]"]) simp_all
  have s3: "capture_line pp ?p ?s2 =
            ?s2\<lparr>active := False, lines := [], last_captured_dump := Some (lines ?s2),
                 printed := printed ?s2 @ [CapturedPartial ''prompt'' (lines ?s2)]\<rparr>"
    using prompt by (intro capture_line_prompt) simp_all
  have "fold (capture_line pp) (map rstrip_cr (h # rows @ [p])) s
        = capture_line pp ?p (fold (capture_line pp) ?rs (capture_line pp ?h s))"
    by simp
  also have "\<dots> = ?s2\<lparr>active := False, lines := [], last_captured_dump := Some (lines ?s2),
                 printed := printed ?s2 @ [CapturedPartial ''prompt'' (lines ?s2)]\<rparr>"
    by (simp only: s1 s2 s3)
  finally show ?thesis
    using rows(1) by (simp add: feed)
qed

theorem capture_prompt_interrupt_witness:
  "\<not> active capture_init \<and> fragment capture_init = [] \<and> I2C_HEADER_RE (rstrip_cr HEADER_LINE)
   \<and> length (take 3 example_rows) = 3
   \<and> line_is_prompt_start [''i2c>''] (rstrip_cr ''i2c> '')
   \<and> concat [take 40 (unlines (HEADER_LINE # take 3 example_rows @ [''i2c> ''])),
               drop 40 (unlines (HEADER_LINE # take 3 example_rows @ [''i2c> '']))]
      = unlines (HEADER_LINE # take 3 example_rows @ [''i2c> ''])
   \<and> fold (i2c_capture_feed [''i2c>''])
        [take 40 (unlines (HEADER_LINE # take 3 example_rows @ [''i2c> ''])),
         drop 40 (unlines (HEADER_LINE # take 3 example_rows @ [''i2c> '']))]
        capture_init
      = capture_init\<lparr>last_captured_dump := Some (HEADER_LINE # take 3 example_rows),
          printed := [CapturedPartial ''prompt'' (HEADER_LINE # take 3 example_rows)]\<rparr>"
proof -
  let ?rows = "take 3 example_rows"
  have idle: "\<not> active capture_init" "fragment capture_init = []"
    by (simp_all add: capture_init_def)
  have header: "I2C_HEADER_RE (rstrip_cr HEADER_LINE)"
    by code_simp
  have rows: "length ?rows = 3"
    "\<forall>r \<in> set ?rows. I2C_DATA_ROW_RE (rstrip_cr r)
        \<and> \<not> startswith (lower (rstrip_cr r)) (LAST_ADDR @ '':'')"
    by code_simp+
  have prompt: "line_is_prompt_start [''i2c>''] (rstrip_cr ''i2c> '')"
    by code_simp
  have no_nl: "\<forall>l \<in> set (HEADER_LINE # ?rows @ [''i2c> '']). NL \<notin> set l"
    by code_simp
  have no_prompt: "\<forall>l \<in> set (HEADER_LINE # ?rows).
                     \<not> line_is_prompt_start [''i2c>''] (rstrip_cr l)"
    by code_simp
  have stripped: "map rstrip_cr (HEADER_LINE # ?rows) = HEADER_LINE # ?rows"
    by code_simp
  have init: "capture_init\<lparr>active := False, lines := []\<rparr> = capture_init"
    "printed capture_init = []"
    by (simp_all add: capture_init_def)
  have chunks: "concat [take 40 (unlines (HEADER_LINE # ?rows @ [''i2c> ''])),
                        drop 40 (unlines (HEADER_LINE # ?rows @ [''i2c> '']))]
                = unlines (HEADER_LINE # ?rows @ [''i2c> ''])"
    by simp
  show ?thesis
    using capture_prompt_interrupt [OF idle header rows prompt no_nl no_prompt chunks]
    by (simp only: stripped idle header rows prompt init chunks append_Nil simp_thms)
qed

text \<open>
  The prompt markers are configurable (\<open>prompt_patterns\<close> accepts any non-blank
  string) and the prompt test comes first in the loop, before the row test.  With
  the marker \<open>0\<close> the first data row \<open>00: 00\<close> is itself taken for a prompt line:
  the capture is finalized there with the header alone, the rows that follow find
  the capture idle and are dropped, and the prompt line proper finalizes nothing.
  So the claim as it is written, which does not keep header and rows apart from the
  prompt lines, fails: the one dump has one line, not four.
\<close>

theorem capture_prompt_interrupt_counterexample:
  "\<not> active capture_init \<and> fragment capture_init = []
   \<and> I2C_HEADER_RE HEADER_LINE
   \<and> I2C_DATA_ROW_RE ''00: 00'' \<and> I2C_DATA_ROW_RE ''10: 01'' \<and> I2C_DATA_ROW_RE ''20: 02''
   \<and> \<not> startswith (lower ''00: 00'') (LAST_ADDR @ '':'')
   \<and> \<not> startswith (lower ''10: 01'') (LAST_ADDR @ '':'')
   \<and> \<not> startswith (lower ''20: 02'') (LAST_ADDR @ '':'')
   \<and> line_is_prompt_start [''0''] ''0> ''
   \<and> printed (i2c_capture_feed [''0'']
                 (unlines [HEADER_LINE, ''00: 00'', ''10: 01'', ''20: 02'', ''0> ''])
                 capture_init)
       = [CapturedPartial ''prompt'' [HEADER_LINE]]"
  by code_simp

text \<open>
  The buffer is never empty while the capture is active, so \<open>_i2c_capture_lines[0]\<close>
  is always there when the loop reads it.
\<close>

lemma capture_line_has_lines:
  assumes "active s \<longrightarrow> lines s \<noteq> []"
  shows "active (capture_line pp l s) \<longrightarrow> lines (capture_line pp l s) \<noteq> []"
proof -
  have row: "active (capture_row l t) \<longrightarrow> lines (capture_row l t) \<noteq> []"
    if "lines t \<noteq> []" for t
    using that by (simp add: capture_row_def maybe_finalize_partial_def Let_def)
  have "active (capture_row l (s\<lparr>active := True, lines := [NO_HEADER]\<rparr>)) \<longrightarrow>
        lines (capture_row l (s\<lparr>active := True, lines := [NO_HEADER]\<rparr>)) \<noteq> []"
    by (rule row) simp
  moreover have "active s \<Longrightarrow> active (capture_row l s) \<longrightarrow> lines (capture_row l s) \<noteq> []"
    using assms by (intro row) simp
  ultimately show ?thesis
    by (simp add: capture_line_def maybe_finalize_partial_def)
qed

lemma capture_loop_has_lines:
  "active s \<longrightarrow> lines s \<noteq> [] \<Longrightarrow>
   active (capture_loop pp s) \<longrightarrow> lines (capture_loop pp s) \<noteq> []"
proof (induction pp s rule: capture_loop.induct)
  case (1 pp s)
  show ?case
  proof (cases "NL \<in> set (fragment s)")
    case False
    then show ?thesis using "1.prems" by (subst (1 2) capture_loop.simps) simp
  next
    case True
    let ?line = "takeWhile (\<lambda>c. c \<noteq> NL) (fragment s)"
    let ?rest = "tl (dropWhile (\<lambda>c. c \<noteq> NL) (fragment s))"
    let ?s = "capture_line pp (rstrip_cr ?line) (s\<lparr>fragment := ?rest\<rparr>)"
    have "active ?s \<longrightarrow> lines ?s \<noteq> []"
      using "1.prems" by (intro capture_line_has_lines) simp
    then have "active (capture_loop pp ?s) \<longrightarrow> lines (capture_loop pp ?s) \<noteq> []"
      using True by (intro "1.IH") simp_all
    moreover have "capture_loop pp s = capture_loop pp ?s"
      using True by (subst capture_loop.simps) (simp add: Let_def)
    ultimately show ?thesis by simp
  qed
qed

lemma capture_active_has_lines:
  "active (fold (i2c_capture_feed pp) chunks capture_init)
   \<longrightarrow> lines (fold (i2c_capture_feed pp) chunks capture_init) \<noteq> []"
proof -
  have feed: "active (i2c_capture_feed pp c s) \<longrightarrow> lines (i2c_capture_feed pp c s) \<noteq> []"
    if "active s \<longrightarrow> lines s \<noteq> []" for c s
    using that capture_loop_has_lines [of "s\<lparr>fragment := fragment s @ c\<rparr>" pp]
    by (simp add: i2c_capture_feed_def)
  have "active s \<longrightarrow> lines s \<noteq> [] \<Longrightarrow>
        active (fold (i2c_capture_feed pp) chunks s)
        \<longrightarrow> lines (fold (i2c_capture_feed pp) chunks s) \<noteq> []" for s
    by (induction chunks arbitrary: s) (simp_all add: feed)
  then show ?thesis
    by (simp add: capture_init_def)
qed

lemma mfp_bounded:
  assumes "length (lines s) \<le> 61"
    "\<forall>e \<in> set (printed s). length (event_lines e) \<le> 61"
    "\<forall>d. last_captured_dump s = Some d \<longrightarrow> length d \<le> 61"
  shows "capture_bounded (maybe_finalize_partial reason s)"
  using assms by (simp add: capture_bounded_def maybe_finalize_partial_def)

lemma capture_row_bounded:
  assumes "capture_bounded s"
  shows "capture_bounded (capture_row l s)"
proof -
  define s1 where "s1 =
     (if I2C_DATA_ROW_RE l \<or> l = hd (lines s)
      then (if l \<noteq> hd (lines s) then s\<lparr>lines := lines s @ [l]\<rparr> else s)
      else (if strip l \<noteq> [] then s\<lparr>lines := lines s @ [l]\<rparr> else s))"
  have s1: "length (lines s1) \<le> 61" "printed s1 = printed s"
    "last_captured_dump s1 = last_captured_dump s"
    using assms by (auto simp: s1_def capture_bounded_def)
  have row: "capture_row l s =
     (if startswith (lower l) (LAST_ADDR @ '':'')
      then s1\<lparr>last_captured_dump := Some (lines s1),
              printed := printed s1 @ [CapturedDump (lines s1)],
              active := False, lines := []\<rparr>
      else if length (lines s1) > 60 then maybe_finalize_partial ''overflow'' s1
      else s1)"
    unfolding capture_row_def s1_def Let_def ..
  have pr: "\<forall>e \<in> set (printed s1). length (event_lines e) \<le> 61"
    "\<forall>d. last_captured_dump s1 = Some d \<longrightarrow> length d \<le> 61"
    using assms s1 by (simp_all add: capture_bounded_def)
  show ?thesis
  proof (cases "startswith (lower l) (LAST_ADDR @ '':'')")
    case True
    then show ?thesis using s1(1) pr by (simp add: row capture_bounded_def)
  next
    case False
    show ?thesis
    proof (cases "length (lines s1) > 60")
      case True
      then show ?thesis using False mfp_bounded [OF s1(1) pr] by (simp add: row)
    next
      case le: False
      then show ?thesis using False pr by (simp add: row capture_bounded_def)
    qed
  qed
qed

lemma capture_line_bounded:
  assumes "capture_bounded s"
  shows "capture_bounded (capture_line pp l s)"
proof -
  have a: "capture_bounded (maybe_finalize_partial ''prompt'' s)"
    using assms by (intro mfp_bounded) (simp_all add: capture_bounded_def)
  have b: "capture_bounded (s\<lparr>active := True, lines := [l]\<rparr>)"
    using assms by (simp add: capture_bounded_def)
  have "capture_bounded (s\<lparr>active := True, lines := [NO_HEADER]\<rparr>)"
    using assms by (simp add: capture_bounded_def)
  then have c: "capture_bounded (capture_row l (s\<lparr>active := True, lines := [NO_HEADER]\<rparr>))"
    by (rule capture_row_bounded)
  have d: "capture_bounded (capture_row l s)"
    using assms by (rule capture_row_bounded)
  show ?thesis
    unfolding capture_line_def using a b c d assms by simp
qed

lemma capture_loop_bounded:
  "capture_bounded s \<Longrightarrow> capture_bounded (capture_loop pp s)"
proof (induction pp s rule: capture_loop.induct)
  case (1 pp s)
  show ?case
  proof (cases "NL \<in> set (fragment s)")
    case False
    then show ?thesis using "1.prems" by (subst capture_loop.simps) simp
  next
    case True
    let ?line = "takeWhile (\<lambda>c. c \<noteq> NL) (fragment s)"
    let ?rest = "tl (dropWhile (\<lambda>c. c \<noteq> NL) (fragment s))"
    have "capture_bounded (s\<lparr>fragment := ?rest\<rparr>)"
      using "1.prems" by (simp add: capture_bounded_def)
    then have "capture_bounded (capture_line pp (rstrip_cr ?line) (s\<lparr>fragment := ?rest\<rparr>))"
      by (rule capture_line_bounded)
    then have "capture_bounded (capture_loop pp
                 (capture_line pp (rstrip_cr ?line) (s\<lparr>fragment := ?rest\<rparr>)))"
      using True by (intro "1.IH") simp_all
    then show ?thesis using True by (subst capture_loop.simps) (simp add: Let_def)
  qed
qed

lemma feed_bounded:
  assumes "capture_bounded s"
  shows "capture_bounded (i2c_capture_feed pp chunk s)"
proof (cases "chunk = []")
  case True
  then show ?thesis using assms by (simp add: i2c_capture_feed_def)
next
  case False
  have "capture_bounded (s\<lparr>fragment := fragment s @ chunk\<rparr>)"
    using assms by (simp add: capture_bounded_def)
  then have "capture_bounded (capture_loop pp (s\<lparr>fragment := fragment s @ chunk\<rparr>))"
    by (rule capture_loop_bounded)
  then show ?thesis using False by (simp add: i2c_capture_feed_def)
qed

text \<open>
  Claim C10.  Whatever chunks are fed, one after the other, to the capture the
  process starts with, the line buffer holds at most 60 lines after each call, and
  every dump that was finalized, at the terminal row, at a prompt or at the
  overflow bound, the most recent capture included, has at most 61 lines.
\<close>

theorem capture_buffer_bounded:
  "capture_bounded (fold (i2c_capture_feed pp) chunks capture_init)"
proof -
  have "capture_bounded s \<Longrightarrow> capture_bounded (fold (i2c_capture_feed pp) chunks s)" for s
    by (induction chunks arbitrary: s) (simp_all add: feed_bounded)
  moreover have "capture_bounded capture_init"
    by (simp add: capture_bounded_def capture_init_def)
  ultimately show ?thesis .
qed

theorem capture_buffer_bounded_witness:
  "printed (fold (i2c_capture_feed [''i2c>''])
              [HEADER_LINE @ [NL] @ ''f0: 0'', ''0'' @ [NL]] capture_init)
     = [CapturedDump [HEADER_LINE, ''f0: 00'']]
   \<and> capture_bounded (fold (i2c_capture_feed [''i2c>''])
              [HEADER_LINE @ [NL] @ ''f0: 0'', ''0'' @ [NL]] capture_init)"
proof -
  have "printed (fold (i2c_capture_feed [''i2c>''])
              [HEADER_LINE @ [NL] @ ''f0: 0'', ''0'' @ [NL]] capture_init)
     = [CapturedDump [HEADER_LINE, ''f0: 00'']]"
    by code_simp
  then show ?thesis
    using capture_buffer_bounded
            [of "[''i2c>'']" "[HEADER_LINE @ [NL] @ ''f0: 0'', ''0'' @ [NL]]"]
    by simp
qed

section \<open>Properties of the prompt counter\<close>

lemma startswith_iff: "startswith s p \<longleftrightarrow> (\<exists>after. s = p @ after)"
proof
  assume "startswith s p"
  then have "s = p @ drop (length p) s"
    by (metis append_take_drop_id startswith_def)
  then show "\<exists>after. s = p @ after" ..
next
  assume "\<exists>after. s = p @ after"
  then show "startswith s p" by (auto simp: startswith_def)
qed

lemma contains_iff: "contains t p \<longleftrightarrow> occurs_in p t"
proof (induction t)
  case Nil
  then show ?case by (auto simp: occurs_in_def)
next
  case (Cons c cs)
  have "occurs_in p (c # cs) \<longleftrightarrow> startswith (c # cs) p \<or> occurs_in p cs"
  proof
    assume "occurs_in p (c # cs)"
    then obtain before after where eq: "c # cs = before @ p @ after"
      by (auto simp: occurs_in_def)
    show "startswith (c # cs) p \<or> occurs_in p cs"
    proof (cases before)
      case Nil
      with eq show ?thesis by (auto simp: startswith_iff)
    next
      case (Cons b bs)
      with eq have "cs = bs @ p @ after" by simp
      then show ?thesis by (auto simp: occurs_in_def)
    qed
  next
    assume "startswith (c # cs) p \<or> occurs_in p cs"
    then show "occurs_in p (c # cs)"
    proof
      assume "startswith (c # cs) p"
      then obtain after where "c # cs = [] @ p @ after"
        by (auto simp: startswith_iff)
      then show ?thesis unfolding occurs_in_def by blast
    next
      assume "occurs_in p cs"
      then obtain before after where "cs = before @ p @ after"
        by (auto simp: occurs_in_def)
      then have "c # cs = (c # before) @ p @ after" by simp
      then show ?thesis unfolding occurs_in_def by blast
    qed
  qed
  with Cons.IH show ?case by simp
qed

lemma configured_patterns_nonempty:
  "configured_patterns cfg \<noteq> [] \<and> [] \<notin> set (configured_patterns cfg)"
proof (cases cfg)
  case None
  then show ?thesis by (simp add: configured_patterns_def)
next
  case (Some pp)
  have "[] \<notin> set (filter (\<lambda>p. strip p \<noteq> []) pp)"
    by (simp add: strip_def)
  then show ?thesis
    using Some by (simp add: configured_patterns_def Let_def)
qed

lemma any_prompt_in_iff:
  assumes "[] \<notin> set pp"
  shows "any_prompt_in pp t \<longleftrightarrow> has_marker pp t"
proof -
  have "p \<noteq> []" if "p \<in> set pp" for p
    using assms that by auto
  then show ?thesis
    unfolding any_prompt_in_def has_marker_def list_ex_iff contains_iff by blast
qed

lemma inc_prompt_if_in_eq:
  assumes "[] \<notin> set pp"
  shows "inc_prompt_if_in pp t n = (if has_marker pp t then n + 1 else n)"
proof -
  have "pp = [] \<Longrightarrow> \<not> has_marker pp t"
    by (simp add: has_marker_def)
  then show ?thesis
    using any_prompt_in_iff [OF assms] by (auto simp: inc_prompt_if_in_def)
qed

lemma fold_inc_prompt:
  assumes "[] \<notin> set pp"
  shows "fold (inc_prompt_if_in pp) chunks n = n + int (length (filter (has_marker pp) chunks))"
  by (induction chunks arbitrary: n) (simp_all add: inc_prompt_if_in_eq [OF assms])

text \<open>
  Claim C5.  For every user configuration and every sequence of chunks handed to
  \<open>inc_prompt_if_in\<close>, the counter ends higher by exactly the number of chunks in
  which one of the configured markers occurs as a substring, however often it
  occurs there, and the counter after a shorter prefix of the chunks is never
  above the counter after a longer one.
\<close>

theorem prompt_counter_counts_chunks:
  "fold (inc_prompt_if_in (configured_patterns cfg)) chunks n
     = n + int (length (filter (has_marker (configured_patterns cfg)) chunks))
   \<and> (j \<le> k \<longrightarrow>
        fold (inc_prompt_if_in (configured_patterns cfg)) (take j chunks) n
          \<le> fold (inc_prompt_if_in (configured_patterns cfg)) (take k chunks) n)"
proof -
  let ?pp = "configured_patterns cfg"
  have ne: "[] \<notin> set ?pp"
    using configured_patterns_nonempty by blast
  have mono: "length (filter (has_marker ?pp) (take j chunks))
              \<le> length (filter (has_marker ?pp) (take k chunks))" if "j \<le> k"
  proof -
    have "take k chunks = take j chunks @ drop j (take k chunks)"
      using that by (metis append_take_drop_id min.absorb1 take_take)
    then have "filter (has_marker ?pp) (take k chunks)
               = filter (has_marker ?pp) (take j chunks)
                 @ filter (has_marker ?pp) (drop j (take k chunks))"
      by (metis filter_append)
    then show ?thesis by simp
  qed
  show ?thesis
    using mono by (simp add: fold_inc_prompt [OF ne])
qed

theorem prompt_counter_counts_chunks_witness:
  "(1::nat) \<le> 3 \<and>
   fold (inc_prompt_if_in (configured_patterns (Some [''i2c>'', [], ''# ''])))
        [''i2c> ok i2c>'', ''booting'', ''~ # ''] 0 = 2
   \<and> fold (inc_prompt_if_in (configured_patterns (Some [''i2c>'', [], ''# ''])))
        (take 1 [''i2c> ok i2c>'', ''booting'', ''~ # '']) 0 = 1"
proof -
  let ?pp = "configured_patterns (Some [''i2c>'', [], ''# ''])"
  let ?chunks = "[''i2c> ok i2c>'', ''booting'', ''~ # '']"
  have pp: "?pp = [''i2c>'', ''# '']"
    by code_simp
  have "filter (has_marker ?pp) ?chunks = filter (any_prompt_in ?pp) ?chunks"
    by (rule filter_cong) (simp_all add: pp any_prompt_in_iff)
  also have "\<dots> = [''i2c> ok i2c>'', ''~ # '']"
    by code_simp
  finally have count: "length (filter (has_marker ?pp) ?chunks) = 2"
    by simp
  have first: "fold (inc_prompt_if_in ?pp) (take 1 ?chunks) 0 = 1"
    by code_simp
  show ?thesis
    using prompt_counter_counts_chunks [of "Some [''i2c>'', [], ''# '']" ?chunks 0 1 3]
    by (simp only: count first) simp
qed

section \<open>Properties of the wait for the prompt\<close>

lemma wait_loop_polls:
  assumes "\<forall>m<k. time_reads (i + m) < deadline \<and> seq_reads (j + m) \<le> prev_seq"
  shows "wait_loop time_reads seq_reads prev_seq deadline i j pauses
         = wait_loop time_reads seq_reads prev_seq deadline (i + k) (j + k) (pauses @ replicate k POLL_MS)"
  using assms
proof (induction k arbitrary: i j pauses)
  case 0
  then show ?case by simp
next
  case (Suc k)
  have here: "time_reads i < deadline" "\<not> seq_reads j > prev_seq"
    using Suc.prems [rule_format, of 0] by simp_all
  have rest: "\<forall>m<k. time_reads (i + 1 + m) < deadline \<and> seq_reads (j + 1 + m) \<le> prev_seq"
    using Suc.prems by (auto dest: spec [where x = "Suc m" for m])
  have "wait_loop time_reads seq_reads prev_seq deadline i j pauses
        = wait_loop time_reads seq_reads prev_seq deadline (i + 1) (j + 1) (pauses @ [POLL_MS])"
    using here by (subst wait_loop.simps) simp
  also have "\<dots> = wait_loop time_reads seq_reads prev_seq deadline (i + 1 + k) (j + 1 + k)
                     ((pauses @ [POLL_MS]) @ replicate k POLL_MS)"
    by (rule Suc.IH [OF rest])
  finally show ?case
    by (simp add: replicate_app_Cons_same)
qed

lemma wait_loop_returns:
  assumes "\<not> time_reads (i + k) < deadline \<or> prev_seq < seq_reads (j + k)"
  shows "\<exists>r. wait_loop time_reads seq_reads prev_seq deadline i j pauses = Some r"
  using assms
proof (induction k arbitrary: i j pauses)
  case 0
  then show ?case by (subst wait_loop.simps) auto
next
  case (Suc k)
  have "\<exists>r. wait_loop time_reads seq_reads prev_seq deadline (i + 1) (j + 1) (pauses @ [POLL_MS]) = Some r"
    using Suc.prems by (intro Suc.IH) simp
  then show ?case by (subst wait_loop.simps) auto
qed

text \<open>
  Claim C8, as amended.  With the wait enabled, the call polls as long as the
  clock reads less than the deadline, which is the first clock reading plus the
  timeout, and the counter reads no more than \<open>n\<close>, pausing ten milliseconds after
  each such reading.  If then the counter reads more than \<open>n\<close> at a turn whose clock
  reading is still before the deadline, that counter reading is returned after
  the settle pause, and the statement after the loop is not reached; this holds
  for a counter that exceeds \<open>n\<close> from the start when the second clock reading is
  before the deadline.  If instead the clock reads the deadline or more, the call
  returns through the statement after the loop what the counter reads then, with
  no settle pause; that is the unchanged value when the counter has not moved.
  The call returns as soon as one of the two happens, and no branch raises an
  error.
\<close>

theorem wait_for_next_prompt_returns:
  fixes time_reads :: "nat \<Rightarrow> 't::{plus,linorder}"
  shows
  "((\<forall>m<k. time_reads (1 + m) < time_reads 0 + timeout \<and> seq_reads m \<le> n)
      \<and> time_reads (1 + k) < time_reads 0 + timeout \<and> n < seq_reads k \<longrightarrow>
        wait_for_next_prompt True time_reads seq_reads n timeout
          = Some \<lparr>returned = seq_reads k,
                  slept = replicate k POLL_MS @ [POST_PROMPT_STABILIZE_MS],
                  exit_by = Advanced\<rparr>)
   \<and> ((\<forall>m<k. time_reads (1 + m) < time_reads 0 + timeout \<and> seq_reads m \<le> n)
      \<and> \<not> time_reads (1 + k) < time_reads 0 + timeout \<longrightarrow>
        wait_for_next_prompt True time_reads seq_reads n timeout
          = Some \<lparr>returned = seq_reads k, slept = replicate k POLL_MS, exit_by = TimedOut\<rparr>)
   \<and> (\<not> time_reads (1 + k) < time_reads 0 + timeout \<or> n < seq_reads k \<longrightarrow>
        (\<exists>r. wait_for_next_prompt True time_reads seq_reads n timeout = Some r))"
proof (intro conjI impI)
  let ?d = "time_reads 0 + timeout"
  assume a: "(\<forall>m<k. time_reads (1 + m) < ?d \<and> seq_reads m \<le> n) \<and> time_reads (1 + k) < ?d \<and> n < seq_reads k"
  then have "wait_loop time_reads seq_reads n ?d 1 0 []
             = wait_loop time_reads seq_reads n ?d (1 + k) (0 + k) ([] @ replicate k POLL_MS)"
    by (intro wait_loop_polls) simp
  also have "\<dots> = Some \<lparr>returned = seq_reads k,
                          slept = replicate k POLL_MS @ [POST_PROMPT_STABILIZE_MS],
                          exit_by = Advanced\<rparr>"
    using a by (subst wait_loop.simps) simp
  finally show "wait_for_next_prompt True time_reads seq_reads n timeout
          = Some \<lparr>returned = seq_reads k,
                  slept = replicate k POLL_MS @ [POST_PROMPT_STABILIZE_MS],
                  exit_by = Advanced\<rparr>"
    by (simp add: wait_for_next_prompt_def)
next
  let ?d = "time_reads 0 + timeout"
  assume a: "(\<forall>m<k. time_reads (1 + m) < ?d \<and> seq_reads m \<le> n) \<and> \<not> time_reads (1 + k) < ?d"
  then have "wait_loop time_reads seq_reads n ?d 1 0 []
             = wait_loop time_reads seq_reads n ?d (1 + k) (0 + k) ([] @ replicate k POLL_MS)"
    by (intro wait_loop_polls) simp
  also have "\<dots> = Some \<lparr>returned = seq_reads k, slept = replicate k POLL_MS, exit_by = TimedOut\<rparr>"
    using a by (subst wait_loop.simps) simp
  finally show "wait_for_next_prompt True time_reads seq_reads n timeout
          = Some \<lparr>returned = seq_reads k, slept = replicate k POLL_MS, exit_by = TimedOut\<rparr>"
    by (simp add: wait_for_next_prompt_def)
next
  let ?d = "time_reads 0 + timeout"
  assume "\<not> time_reads (1 + k) < ?d \<or> n < seq_reads k"
  then have "\<exists>r. wait_loop time_reads seq_reads n ?d 1 0 [] = Some r"
    by (intro wait_loop_returns [where k = k]) simp
  then show "\<exists>r. wait_for_next_prompt True time_reads seq_reads n timeout = Some r"
    by (simp add: wait_for_next_prompt_def)
qed

theorem wait_for_next_prompt_returns_witness:
  "example_times (1 + 0) < example_times 0 + 25 \<and> 3 < example_seqs 4 0
   \<and> wait_for_next_prompt True example_times (example_seqs 4) 3 25
       = Some \<lparr>returned = 4, slept = [POST_PROMPT_STABILIZE_MS], exit_by = Advanced\<rparr>
   \<and> example_times (1 + 2) < example_times 0 + 50 \<and> 3 < example_rising 2
   \<and> wait_for_next_prompt True example_times example_rising 3 50
       = Some \<lparr>returned = 4, slept = [POLL_MS, POLL_MS, POST_PROMPT_STABILIZE_MS],
               exit_by = Advanced\<rparr>
   \<and> \<not> example_times (1 + 2) < example_times 0 + 25
   \<and> wait_for_next_prompt True example_times (example_seqs 3) 3 25
       = Some \<lparr>returned = 3, slept = [POLL_MS, POLL_MS], exit_by = TimedOut\<rparr>"
proof -
  have first: "example_times (1 + 0) < example_times 0 + 25 \<and> 3 < example_seqs 4 0"
    by (simp add: example_times_def example_seqs_def)
  have polls: "\<forall>m<2. example_times (1 + m) < example_times 0 + 50 \<and> example_rising m \<le> 3"
    by (simp add: example_times_def example_rising_def)
  have rises: "example_times (1 + 2) < example_times 0 + 50 \<and> 3 < example_rising 2"
    by (simp add: example_times_def example_rising_def)
  have stays: "\<forall>m<2. example_times (1 + m) < example_times 0 + 25 \<and> example_seqs 3 m \<le> 3"
    by (simp add: example_times_def example_seqs_def less_Suc_eq numeral_2_eq_2)
  have late: "\<not> example_times (1 + 2) < example_times 0 + 25"
    by (simp add: example_times_def)
  have r1: "wait_for_next_prompt True example_times (example_seqs 4) 3 25
            = Some \<lparr>returned = 4, slept = [POST_PROMPT_STABILIZE_MS], exit_by = Advanced\<rparr>"
    using wait_for_next_prompt_returns
            [where time_reads = example_times and seq_reads = "example_seqs 4" and n = 3 and timeout = 25
               and k = 0] first
    by (simp add: example_seqs_def)
  have r2: "wait_for_next_prompt True example_times example_rising 3 50
            = Some \<lparr>returned = 4, slept = [POLL_MS, POLL_MS, POST_PROMPT_STABILIZE_MS],
                    exit_by = Advanced\<rparr>"
    using wait_for_next_prompt_returns
            [where time_reads = example_times and seq_reads = example_rising and n = 3 and timeout = 50
               and k = 2] polls rises
    by (simp add: example_rising_def numeral_2_eq_2)
  have r3: "wait_for_next_prompt True example_times (example_seqs 3) 3 25
            = Some \<lparr>returned = 3, slept = [POLL_MS, POLL_MS], exit_by = TimedOut\<rparr>"
    using wait_for_next_prompt_returns
            [where time_reads = example_times and seq_reads = "example_seqs 3" and n = 3 and timeout = 25
               and k = 2] stays late
    by (simp add: example_seqs_def numeral_2_eq_2)
  show ?thesis
    by (intro conjI first [THEN conjunct1] first [THEN conjunct2] r1
          rises [THEN conjunct1] rises [THEN conjunct2] r2 late r3)
qed

text \<open>
  The claim as it is written has a call with a positive timeout and a counter
  already beyond \<open>n\<close> return after the settle pause, without reaching the
  statement after the loop.  The loop test reads the clock anew: when that second
  reading is not before the deadline, as with a timeout shorter than the time
  between the two readings, the loop body is never entered.  Here the timeout is
  one millisecond and the clock readings are ten milliseconds apart: the call
  returns the counter through the statement after the loop, with no settle pause.
\<close>

theorem wait_for_next_prompt_returns_counterexample:
  "(0::int) < 1 \<and> 3 < example_seqs 4 0
   \<and> wait_for_next_prompt True example_times (example_seqs 4) 3 1
       = Some \<lparr>returned = 4, slept = [], exit_by = TimedOut\<rparr>"
  by (simp add: wait_for_next_prompt_def wait_loop.simps example_times_def example_seqs_def)

section \<open>Properties of the playback\<close>

lemma sent_wait_ready [simp]: "sent (wait_ready_if_needed cfg st) = sent st"
  by (simp add: wait_ready_if_needed_def)

lemma visited_wait_ready [simp]: "visited (wait_ready_if_needed cfg st) = visited st"
  by (simp add: wait_ready_if_needed_def)

lemma sent_send_enter_only [simp]: "sent (send_enter_only cfg st) = sent st @ [SendEnterOnly]"
  by (simp add: send_enter_only_def Let_def)

lemma sent_send_line [simp]: "sent (send_line cfg l st) = sent st @ [SendLine l]"
  by (simp add: send_line_def Let_def)

lemma visited_send_enter_only [simp]: "visited (send_enter_only cfg st) = visited st"
  by (simp add: send_enter_only_def Let_def)

lemma visited_send_line [simp]: "visited (send_line cfg l st) = visited st"
  by (simp add: send_line_def Let_def)

lemma sent_play_line [simp]: "sent (play_line cfg l st) = sent st @ line_transmissions l"
  by (simp add: play_line_def line_transmissions_def)

lemma visited_play_line [simp]: "visited (play_line cfg l st) = visited st"
  by (simp add: play_line_def)

lemma sent_fold_play_line:
  "sent (fold (play_line cfg) ls st) = sent st @ concat (map line_transmissions ls)"
  by (induction ls arbitrary: st) simp_all

lemma visited_fold_play_line [simp]: "visited (fold (play_line cfg) ls st) = visited st"
  by (induction ls arbitrary: st) simp_all

lemma splitlines_Nil [simp]: "splitlines [] = []"
  by (simp add: splitlines_def)

lemma sent_play_segment [simp]:
  "sent (play_segment cfg seg st) = sent st @ segment_transmissions seg"
  by (simp add: play_segment_def segment_transmissions_def sent_fold_play_line)

lemma visited_play_segment [simp]: "visited (play_segment cfg seg st) = visited st"
  by (simp add: play_segment_def Let_def)

lemma sent_play_parts:
  "sent (play_parts cfg parts st) = sent st @ join_segments (map segment_transmissions parts)"
  by (induction cfg parts st rule: play_parts.induct) simp_all

lemma visited_play_parts [simp]: "visited (play_parts cfg parts st) = visited st"
  by (induction cfg parts st rule: play_parts.induct) simp_all

lemma sent_play_raw: "sent (play_raw cfg data st) = sent st @ raw_transmissions data"
  by (simp add: play_raw_def raw_transmissions_def sent_play_parts)

lemma visited_play_raw [simp]: "visited (play_raw cfg data st) = visited st"
  by (simp add: play_raw_def)

lemma play_slot_recursive_value:
  assumes "depth \<le> 40" "k \<in> set ALL_SLOTS" "slot_cmds cfg k = Some v" "k \<notin> visited st"
  shows "play_slot_recursive cfg k depth st =
           (let st1 = st\<lparr>visited := insert k (visited st)\<rparr>;
                st2 = (case v of
                         Enter \<Rightarrow> send_enter_only cfg st1
                       | Combo seq \<Rightarrow> fold (play_member cfg depth) seq st1
                       | Raw data \<Rightarrow> play_raw cfg data st1)
            in st2\<lparr>visited := visited st2 - {k}\<rparr>)"
proof -
  have eq: "(\<lambda>c s. if c \<in> set ALL_SLOTS then play_slot_recursive cfg c (depth + 1) s else s)
            = play_member cfg depth"
    by (intro ext) (simp add: play_member_def)
  show ?thesis
    using assms by (subst play_slot_recursive.simps) (cases v; simp add: eq)
qed


text \<open>
  Claim C3, as amended.  Playing a slot that holds the raw text \<open>data\<close> makes
  exactly these transmissions, in this order: the text is split at the token
  \<open><ENTER>\<close> into segments; an empty segment gives one enter; any other segment is
  split into lines, and a line gives a line transmission when it holds a character
  that is not white space, one enter when it holds white space only, and nothing
  when it is empty; one more enter is sent between two consecutive segments.
\<close>

theorem raw_slot_transmissions:
  assumes "k \<in> set ALL_SLOTS" and "slot_cmds cfg k = Some (Raw data)"
  shows "sent (play_slot cfg k) = raw_transmissions data"
proof -
  have "play_slot cfg k = play_slot_recursive cfg k 0 play_init"
    using assms(1) by (simp add: play_slot_def)
  also have "sent \<dots> = sent play_init @ raw_transmissions data"
    using assms by (subst play_slot_recursive_value [where v = "Raw data"])
      (simp_all add: play_init_def Let_def sent_play_raw)
  finally show ?thesis by (simp add: play_init_def)
qed

theorem raw_slot_transmissions_witness:
  "CHR ''a'' \<in> set ALL_SLOTS
   \<and> slot_cmds (example_playback (one_slot CHR ''a'' (Raw (''ls'' @ [NL] @ ''  '' @ [NL, NL] @ ''<ENTER>''))))
        CHR ''a'' = Some (Raw (''ls'' @ [NL] @ ''  '' @ [NL, NL] @ ''<ENTER>''))
   \<and> sent (play_slot
        (example_playback (one_slot CHR ''a'' (Raw (''ls'' @ [NL] @ ''  '' @ [NL, NL] @ ''<ENTER>''))))
        CHR ''a'')
      = [SendLine ''ls'', SendEnterOnly, SendEnterOnly, SendEnterOnly]"
proof -
  let ?data = "''ls'' @ [NL] @ ''  '' @ [NL, NL] @ ''<ENTER>''"
  have key: "CHR ''a'' \<in> set ALL_SLOTS"
    by code_simp
  have slot: "slot_cmds (example_playback (one_slot CHR ''a'' (Raw ?data))) CHR ''a''
              = Some (Raw ?data)"
    by (simp add: example_playback_def one_slot_def)
  have "raw_transmissions ?data = [SendLine ''ls'', SendEnterOnly, SendEnterOnly, SendEnterOnly]"
    by code_simp
  then show ?thesis
    using raw_slot_transmissions [OF key slot] key slot by simp
qed

text \<open>
  As the claim is written, every blank line gives an enter and nothing is said of
  an empty segment.  The code sends nothing for the empty line between \<open>a\<close> and
  \<open>b\<close>, and sends one enter for a text that is empty.
\<close>

theorem raw_slot_transmissions_counterexample:
  "sent (play_slot (example_playback (one_slot CHR ''a'' (Raw (''a'' @ [NL, NL] @ ''b'')))) CHR ''a'')
     = [SendLine ''a'', SendLine ''b'']
   \<and> spec_raw_transmissions (''a'' @ [NL, NL] @ ''b'')
     = [SendLine ''a'', SendEnterOnly, SendLine ''b'']
   \<and> sent (play_slot (example_playback (one_slot CHR ''a'' (Raw ''''))) CHR ''a'') = [SendEnterOnly]
   \<and> spec_raw_transmissions '''' = []"
  by code_simp



lemma wait_ready_without_slot [simp]:
  "wait_ready_if_needed (without_slot cfg k) = wait_ready_if_needed cfg"
  by (intro ext) (simp add: wait_ready_if_needed_def without_slot_def)

lemma send_enter_only_without_slot [simp]:
  "send_enter_only (without_slot cfg k) = send_enter_only cfg"
  by (intro ext) (simp add: send_enter_only_def)

lemma send_line_without_slot [simp]:
  "send_line (without_slot cfg k) = send_line cfg"
  by (intro ext) (simp add: send_line_def)

lemma play_line_without_slot [simp]:
  "play_line (without_slot cfg k) = play_line cfg"
  by (intro ext) (simp add: play_line_def)

lemma play_segment_without_slot [simp]:
  "play_segment (without_slot cfg k) = play_segment cfg"
  by (intro ext) (simp add: play_segment_def Let_def)

lemma play_parts_without_slot [simp]:
  "play_parts (without_slot cfg k) parts st = play_parts cfg parts st"
  by (induction cfg parts st rule: play_parts.induct) simp_all

lemma play_raw_without_slot [simp]:
  "play_raw (without_slot cfg k) data st = play_raw cfg data st"
  by (simp add: play_raw_def)






section \<open>Properties of the dump compare\<close>

lemma length_fit16 [simp]: "length (fit16 xs) = 16"
  by (simp add: fit16_def)

lemma rows16_parse_line: "rows16 m \<Longrightarrow> rows16 (parse_line ln m)"
  by (auto simp: rows16_def parse_line_def split: option.splits)

lemma rows16_fold_parse_line: "rows16 m \<Longrightarrow> rows16 (fold parse_line lns m)"
  by (induction lns arbitrary: m) (simp_all add: rows16_parse_line)

lemma fold_fill_row:
  "fold fill_row addrs m a =
     (if m a = None \<and> a \<in> set addrs then Some (replicate 16 ''--'') else m a)"
  by (induction addrs arbitrary: m) (auto simp: fill_row_def)

lemma parse_dump_to_matrix_row:
  "parse_dump_to_matrix lns a =
     (if fold parse_line lns Map.empty a = None \<and> a \<in> set ROW_ADDRS
      then Some (replicate 16 ''--'') else fold parse_line lns Map.empty a)"
  by (simp add: parse_dump_to_matrix_def fold_fill_row)

lemma rows16_parse_dump_to_matrix: "rows16 (parse_dump_to_matrix lns)"
proof -
  have "rows16 (fold parse_line lns Map.empty)"
    by (rule rows16_fold_parse_line) (simp add: rows16_def)
  then show ?thesis
    by (auto simp: rows16_def parse_dump_to_matrix_row split: if_splits)
qed

lemma row_addrs_parse_dump_to_matrix:
  assumes "a \<in> set ROW_ADDRS"
  shows "\<exists>row. parse_dump_to_matrix lns a = Some row \<and> length row = 16"
proof -
  have "parse_dump_to_matrix lns a \<noteq> None"
    using assms by (simp add: parse_dump_to_matrix_row)
  then obtain row where row: "parse_dump_to_matrix lns a = Some row"
    by auto
  then have "length row = 16"
    using rows16_parse_dump_to_matrix [of lns] unfolding rows16_def by blast
  with row show ?thesis by simp
qed

lemma row_tokens_same:
  assumes "\<forall>i \<in> set idx. i < length row"
  shows "row_tokens render row row idx = Inr (map (\<lambda>i. ''XX'') idx, 0)"
  using assms by (induction idx) simp_all

lemma view_rows_same:
  assumes "\<forall>a \<in> set addrs. \<exists>row. m a = Some row \<and> length row = 16"
  shows "view_rows render m m addrs = Inr (map masked_row addrs, 0, 0)"
  using assms
proof (induction addrs)
  case Nil
  then show ?case by simp
next
  case (Cons a addrs)
  then obtain row where row: "m a = Some row" "length row = 16"
    by auto
  have "row_tokens render row row [0..<16] = Inr (map (\<lambda>i. ''XX'') [0..<16], 0)"
    by (rule row_tokens_same) (simp add: row(2))
  moreover have "map (\<lambda>i. ''XX'') [0..<16] = replicate 16 ''XX''"
    by (simp add: map_replicate_const)
  ultimately show ?case
    using Cons by (simp add: row masked_row_def)
qed

lemma dump_compare_single_same:
  assumes "slot_dump s a = Some dump"
  shows "dump_compare_single a a s =
           Inr (store_cmp_result (masked_record a (clock s (ticks s))) (s\<lparr>ticks := ticks s + 1\<rparr>),
                Some \<lparr>key_a = a, key_b = a, changed_rows = 0, changed_bytes = 0\<rparr>)"
proof -
  have rows: "\<forall>addr \<in> set ROW_ADDRS.
                \<exists>row. parse_dump_to_matrix dump addr = Some row \<and> length row = 16"
    using row_addrs_parse_dump_to_matrix by blast
  have view: "view_rows render (parse_dump_to_matrix dump) (parse_dump_to_matrix dump) ROW_ADDRS
              = Inr (map masked_row ROW_ADDRS, 0, 0)" for render
    by (rule view_rows_same [OF rows])
  show ?thesis
    by (simp add: dump_compare_single_def assms Let_def view now_def masked_record_def)
qed

lemma fit16_eq: "fit16 xs = take 16 xs @ replicate (16 - length xs) ''--''"
  by (simp add: fit16_def)

lemma upper_placeholder: "upper ''--'' = ''--''"
  by code_simp

lemma parse_line_entry:
  "parse_line ln m =
     (case row_entry ln of None \<Rightarrow> m
      | Some (addr, toks) \<Rightarrow>
          m(addr \<mapsto> map upper (take 16 toks) @ replicate (16 - length toks) ''--''))"
  by (simp add: parse_line_def row_entry_def fit16_eq upper_placeholder split: option.splits)

lemma parse_line_other:
  "map_option fst (row_entry ln) \<noteq> Some a \<Longrightarrow> parse_line ln m a = m a"
  by (auto simp: parse_line_entry split: option.splits)

lemma fold_parse_line_other:
  "\<forall>l \<in> set lns. map_option fst (row_entry l) \<noteq> Some a \<Longrightarrow> fold parse_line lns m a = m a"
  by (induction lns arbitrary: m) (simp_all add: parse_line_other)

lemma fold_parse_line_last:
  assumes "row_entry ln = Some (a, toks)"
    and "\<forall>l \<in> set post. map_option fst (row_entry l) \<noteq> Some a"
  shows "fold parse_line (pre @ ln # post) m a
         = Some (map upper (take 16 toks) @ replicate (16 - length toks) ''--'')"
proof -
  have "fold parse_line (pre @ ln # post) m a
        = fold parse_line post (parse_line ln (fold parse_line pre m)) a"
    by simp
  also have "\<dots> = parse_line ln (fold parse_line pre m) a"
    by (rule fold_parse_line_other [OF assms(2)])
  also have "\<dots> = Some (map upper (take 16 toks) @ replicate (16 - length toks) ''--'')"
    by (simp add: parse_line_entry assms(1))
  finally show ?thesis .
qed

text \<open>
  Claim C6, as amended.  For every list of lines, the matrix \<open>parse_dump_to_matrix\<close>
  builds has a row for each of the sixteen addresses \<open>00\<close>, \<open>10\<close>, ..., \<open>f0\<close>, next to
  the rows of any other address the lines name; every row of the matrix has
  sixteen cells; and a fixed address that no line gave is a row of placeholders
  \<open>--\<close>.  The row of an address is that of the last line filed under it: the first
  sixteen byte tokens of the line in upper case, followed by as many placeholders
  \<open>--\<close> as it takes to make sixteen cells, so that a short row is padded at its end
  and a long row loses what follows its sixteenth token.  An address that no line
  is filed under has the placeholder row if it is one of the sixteen, and no row
  otherwise.  Comparing a slot that holds a dump with itself raises no error,
  counts no changed row and no changed byte, and stores a record of which every
  cell of the four views is the mask \<open>XX\<close>.
\<close>

theorem parse_matrix_shape_and_self_compare:
  "(\<forall>addr \<in> set ROW_ADDRS. \<exists>row. parse_dump_to_matrix dump addr = Some row)
   \<and> (\<forall>addr row. parse_dump_to_matrix dump addr = Some row \<longrightarrow> length row = 16)
   \<and> (\<forall>addr \<in> set ROW_ADDRS. fold parse_line dump Map.empty addr = None \<longrightarrow>
          parse_dump_to_matrix dump addr = Some (replicate 16 ''--''))
   \<and> (row_entry ln = Some (addr', toks)
        \<and> (\<forall>l \<in> set post. map_option fst (row_entry l) \<noteq> Some addr') \<longrightarrow>
          parse_dump_to_matrix (pre @ ln # post) addr'
            = Some (map upper (take 16 toks) @ replicate (16 - length toks) ''--''))
   \<and> ((\<forall>l \<in> set dump. map_option fst (row_entry l) \<noteq> Some addr') \<longrightarrow>
          parse_dump_to_matrix dump addr'
            = (if addr' \<in> set ROW_ADDRS then Some (replicate 16 ''--'') else None))
   \<and> (slot_dump s a = Some dump \<longrightarrow>
          dump_compare_single a a s =
            Inr (store_cmp_result (masked_record a (clock s (ticks s)))
                   (s\<lparr>ticks := ticks s + 1\<rparr>),
                 Some \<lparr>key_a = a, key_b = a, changed_rows = 0, changed_bytes = 0\<rparr>))"
proof (intro conjI)
  show "\<forall>addr \<in> set ROW_ADDRS. \<exists>row. parse_dump_to_matrix dump addr = Some row"
    using row_addrs_parse_dump_to_matrix by blast
  show "\<forall>addr row. parse_dump_to_matrix dump addr = Some row \<longrightarrow> length row = 16"
    using rows16_parse_dump_to_matrix [of dump] unfolding rows16_def .
  show "\<forall>addr \<in> set ROW_ADDRS. fold parse_line dump Map.empty addr = None \<longrightarrow>
          parse_dump_to_matrix dump addr = Some (replicate 16 ''--'')"
    by (simp add: parse_dump_to_matrix_row)
  show "row_entry ln = Some (addr', toks)
        \<and> (\<forall>l \<in> set post. map_option fst (row_entry l) \<noteq> Some addr') \<longrightarrow>
          parse_dump_to_matrix (pre @ ln # post) addr'
            = Some (map upper (take 16 toks) @ replicate (16 - length toks) ''--'')"
  proof
    assume h: "row_entry ln = Some (addr', toks)
               \<and> (\<forall>l \<in> set post. map_option fst (row_entry l) \<noteq> Some addr')"
    have "fold parse_line (pre @ ln # post) Map.empty addr'
          = Some (map upper (take 16 toks) @ replicate (16 - length toks) ''--'')"
      using h by (intro fold_parse_line_last) simp_all
    then show "parse_dump_to_matrix (pre @ ln # post) addr'
            = Some (map upper (take 16 toks) @ replicate (16 - length toks) ''--'')"
      by (simp only: parse_dump_to_matrix_row) simp
  qed
  show "(\<forall>l \<in> set dump. map_option fst (row_entry l) \<noteq> Some addr') \<longrightarrow>
          parse_dump_to_matrix dump addr'
            = (if addr' \<in> set ROW_ADDRS then Some (replicate 16 ''--'') else None)"
  proof
    assume "\<forall>l \<in> set dump. map_option fst (row_entry l) \<noteq> Some addr'"
    then have "fold parse_line dump Map.empty addr' = None"
      by (simp add: fold_parse_line_other)
    then show "parse_dump_to_matrix dump addr'
            = (if addr' \<in> set ROW_ADDRS then Some (replicate 16 ''--'') else None)"
      by (simp add: parse_dump_to_matrix_row)
  qed
  show "slot_dump s a = Some dump \<longrightarrow>
          dump_compare_single a a s =
            Inr (store_cmp_result (masked_record a (clock s (ticks s)))
                   (s\<lparr>ticks := ticks s + 1\<rparr>),
                 Some \<lparr>key_a = a, key_b = a, changed_rows = 0, changed_bytes = 0\<rparr>)"
    by (simp add: dump_compare_single_same)
qed

theorem parse_matrix_shape_and_self_compare_witness:
  "''10'' \<in> set ROW_ADDRS
   \<and> fold parse_line [HEADER_LINE, ''00: 01 02'', ''noise''] Map.empty ''10'' = None
   \<and> parse_dump_to_matrix [HEADER_LINE, ''00: 01 02'', ''noise''] ''10'' = Some (replicate 16 ''--'')
   \<and> parse_dump_to_matrix [HEADER_LINE, ''00: 01 02'', ''noise''] ''00''
        = Some (''01'' # ''02'' # replicate 14 ''--'')
   \<and> row_entry ''00: 0a zz ff'' = Some (''00'', [''0a'', ''ff''])
   \<and> row_entry LONG_ROW
        = Some (''10'', [''00'', ''01'', ''02'', ''03'', ''04'', ''05'', ''06'', ''07'', ''08'',
                         ''09'', ''0a'', ''0b'', ''0c'', ''0d'', ''0e'', ''0f'', ''10''])
   \<and> parse_dump_to_matrix ([HEADER_LINE, ''00: 01 02''] @ ''00: 0a zz ff'' # [''noise'', LONG_ROW]) ''00''
        = Some (''0A'' # ''FF'' # replicate 14 ''--'')
   \<and> parse_dump_to_matrix ([HEADER_LINE] @ LONG_ROW # [''noise'']) ''10''
        = Some [''00'', ''01'', ''02'', ''03'', ''04'', ''05'', ''06'', ''07'', ''08'',
                ''09'', ''0A'', ''0B'', ''0C'', ''0D'', ''0E'', ''0F'']
   \<and> ''01'' \<notin> set ROW_ADDRS
   \<and> parse_dump_to_matrix [HEADER_LINE, ''00: 01 02'', ''noise''] ''01'' = None
   \<and> slot_dump example_compare_state ''0'' = Some [HEADER_LINE, ''00: 01 02'', ''noise'']
   \<and> dump_compare_single ''0'' ''0'' example_compare_state =
        Inr (store_cmp_result (masked_record ''0'' ''2025-09-04 12:00:00'')
               (example_compare_state\<lparr>ticks := 1\<rparr>),
             Some \<lparr>key_a = ''0'', key_b = ''0'', changed_rows = 0, changed_bytes = 0\<rparr>)"
proof -
  let ?dump = "[HEADER_LINE, ''00: 01 02'', ''noise'']"
  let ?long = "[''00'', ''01'', ''02'', ''03'', ''04'', ''05'', ''06'', ''07'', ''08'',
                ''09'', ''0a'', ''0b'', ''0c'', ''0d'', ''0e'', ''0f'', ''10'']"
  have addr: "''10'' \<in> set ROW_ADDRS"
    by code_simp
  have absent: "fold parse_line ?dump Map.empty ''10'' = None"
    by code_simp
  have row0: "parse_dump_to_matrix ?dump ''00'' = Some (''01'' # ''02'' # replicate 14 ''--'')"
    by code_simp
  have short: "row_entry ''00: 0a zz ff'' = Some (''00'', [''0a'', ''ff''])"
    by code_simp
  have long: "row_entry LONG_ROW = Some (''10'', ?long)"
    by code_simp
  have after_short: "\<forall>l \<in> set [''noise'', LONG_ROW]. map_option fst (row_entry l) \<noteq> Some ''00''"
    by code_simp
  have after_long: "\<forall>l \<in> set [''noise'']. map_option fst (row_entry l) \<noteq> Some ''10''"
    by code_simp
  have unnamed: "\<forall>l \<in> set ?dump. map_option fst (row_entry l) \<noteq> Some ''01''"
    by code_simp
  have other: "''01'' \<notin> set ROW_ADDRS"
    by code_simp
  have fit_short: "map upper (take 16 [''0a'', ''ff'']) @ replicate (16 - length [''0a'', ''ff'']) ''--''
                   = ''0A'' # ''FF'' # replicate 14 ''--''"
    by code_simp
  have fit_long: "map upper (take 16 ?long) @ replicate (16 - length ?long) ''--''
                  = [''00'', ''01'', ''02'', ''03'', ''04'', ''05'', ''06'', ''07'', ''08'',
                     ''09'', ''0A'', ''0B'', ''0C'', ''0D'', ''0E'', ''0F'']"
    by code_simp
  have slot: "slot_dump example_compare_state ''0'' = Some ?dump"
    by code_simp
  have env: "clock example_compare_state n = ''2025-09-04 12:00:00''"
    "ticks example_compare_state = 0" for n
    by (simp_all add: example_compare_state_def)
  note inst = parse_matrix_shape_and_self_compare
                [where dump = ?dump and s = example_compare_state and a = "''0''"
                   and addr' = "''01''" and ln = "''noise''" and pre = "[]" and post = "[]"
                   and toks = "[]"]
  have r10: "parse_dump_to_matrix ?dump ''10'' = Some (replicate 16 ''--'')"
    using inst addr absent by blast
  have r01: "parse_dump_to_matrix ?dump ''01'' = None"
    using inst unnamed other by presburger
  have cmp: "dump_compare_single ''0'' ''0'' example_compare_state =
        Inr (store_cmp_result (masked_record ''0'' ''2025-09-04 12:00:00'')
               (example_compare_state\<lparr>ticks := 1\<rparr>),
             Some \<lparr>key_a = ''0'', key_b = ''0'', changed_rows = 0, changed_bytes = 0\<rparr>)"
    using inst slot by (simp add: env)
  have rs: "parse_dump_to_matrix ([HEADER_LINE, ''00: 01 02''] @ ''00: 0a zz ff'' # [''noise'', LONG_ROW]) ''00''
            = Some (''0A'' # ''FF'' # replicate 14 ''--'')"
    using parse_matrix_shape_and_self_compare
            [where ln = "''00: 0a zz ff''" and addr' = "''00''" and toks = "[''0a'', ''ff'']"
               and post = "[''noise'', LONG_ROW]" and pre = "[HEADER_LINE, ''00: 01 02'']"
               and dump = "[]" and s = example_compare_state and a = "''0''"]
          short after_short
    by (simp only: fit_short simp_thms)
  have rl: "parse_dump_to_matrix ([HEADER_LINE] @ LONG_ROW # [''noise'']) ''10''
            = Some [''00'', ''01'', ''02'', ''03'', ''04'', ''05'', ''06'', ''07'', ''08'',
                    ''09'', ''0A'', ''0B'', ''0C'', ''0D'', ''0E'', ''0F'']"
    using parse_matrix_shape_and_self_compare
            [where ln = LONG_ROW and addr' = "''10''" and toks = ?long
               and post = "[''noise'']" and pre = "[HEADER_LINE]"
               and dump = "[]" and s = example_compare_state and a = "''0''"]
          long after_long
    by (simp only: fit_long simp_thms)
  show ?thesis
    by (intro conjI addr absent r10 row0 short long rs rl other r01 slot cmp)
qed

text \<open>
  The matrix is a dictionary keyed by whatever address a line begins with, so it
  can hold rows beyond the sixteen fixed ones: here the row \<open>01\<close>.
\<close>

theorem parse_matrix_shape_and_self_compare_counterexample:
  "parse_dump_to_matrix [''01: ff''] ''01'' = Some (''FF'' # replicate 15 ''--'')
   \<and> ''01'' \<notin> set ROW_ADDRS"
  by code_simp

section \<open>Properties of the compare logs\<close>

lemma length_lastn: "length (lastn n xs) = min n (length xs)"
  by (simp add: lastn_def)

lemma lastn_all: "length xs \<le> n \<Longrightarrow> lastn n xs = xs"
  by (simp add: lastn_def)

lemma lastn_suffix: "xs = take (length xs - n) xs @ lastn n xs"
  by (simp add: lastn_def)

lemma lastn_lastn: "lastn n (lastn n xs) = lastn n xs"
  by (simp add: lastn_all length_lastn)

lemma lastn_append_lastn: "lastn n (lastn n xs @ ys) = lastn n (xs @ ys)"
proof (cases "length xs \<le> n")
  case True
  then show ?thesis by (simp add: lastn_all)
next
  case False
  define d where "d = length xs - n"
  have d: "d \<le> length xs" "length xs - d = n"
    using False by (simp_all add: d_def)
  have "lastn n (drop d xs @ ys) = drop (length ys) (drop d (xs @ ys))"
    using d by (simp add: lastn_def)
  also have "\<dots> = drop (length ys + d) (xs @ ys)"
    by (simp only: drop_drop)
  also have "length ys + d = length (xs @ ys) - n"
    using False by (simp add: d_def)
  finally show ?thesis
    by (simp add: lastn_def d_def)
qed

lemma store_cmp_result_results:
  "dumpcmp_results (store_cmp_result e s) = lastn 400 (dumpcmp_results s @ [e])"
  "results_file (store_cmp_result e s) = lastn 400 (dumpcmp_results s @ [e])"
proof -
  let ?xs = "dumpcmp_results s @ [e]"
  have ne: "lastn 400 ?xs \<noteq> []"
    by (simp add: lastn_def)
  have le: "\<not> 400 < length ?xs \<Longrightarrow> lastn 400 ?xs = ?xs"
    by (simp add: lastn_all)
  show "dumpcmp_results (store_cmp_result e s) = lastn 400 ?xs"
    using ne le
    by (simp add: store_cmp_result_def save_cmp_results_def MAX_CMP_RESULTS_ENTRIES_def Let_def)
  show "results_file (store_cmp_result e s) = lastn 400 ?xs"
    using ne le
    by (simp add: store_cmp_result_def save_cmp_results_def MAX_CMP_RESULTS_ENTRIES_def Let_def
        lastn_lastn)
qed

lemma store_cmp_result_others [simp]:
  "cmp_history (store_cmp_result e s) = cmp_history s"
  "history_file (store_cmp_result e s) = history_file s"
  "i2c_dump_slots (store_cmp_result e s) = i2c_dump_slots s"
  "clock (store_cmp_result e s) = clock s"
  "ticks (store_cmp_result e s) = ticks s"
  by (simp_all add: store_cmp_result_def save_cmp_results_def Let_def)

lemma fold_store_cmp_result:
  "es \<noteq> [] \<Longrightarrow>
   dumpcmp_results (fold store_cmp_result es s) = lastn 400 (dumpcmp_results s @ es)
   \<and> results_file (fold store_cmp_result es s) = lastn 400 (dumpcmp_results s @ es)"
proof (induction es arbitrary: s)
  case Nil
  then show ?case by simp
next
  case (Cons e es)
  show ?case
  proof (cases "es = []")
    case True
    then show ?thesis by (simp add: store_cmp_result_results)
  next
    case False
    then show ?thesis
      using Cons.IH [of "store_cmp_result e s"]
      by (simp add: store_cmp_result_results lastn_append_lastn)
  qed
qed

lemma row_tokens_ok:
  assumes "\<forall>i \<in> set idx. i < length rowA \<and> i < length rowB"
  shows "\<exists>tokens changed. row_tokens render rowA rowB idx = Inr (tokens, changed)"
  using assms by (induction idx) auto

lemma view_rows_ok:
  assumes "\<forall>a \<in> set addrs. (\<exists>row. mA a = Some row \<and> length row = 16)
                          \<and> (\<exists>row. mB a = Some row \<and> length row = 16)"
  shows "\<exists>lns n_rows n_bytes. view_rows render mA mB addrs = Inr (lns, n_rows, n_bytes)"
  using assms
proof (induction addrs)
  case Nil
  then show ?case by simp
next
  case (Cons a addrs)
  then obtain rowA rowB where rows: "mA a = Some rowA" "length rowA = 16"
    "mB a = Some rowB" "length rowB = 16"
    by auto
  obtain tokens changed where "row_tokens render rowA rowB [0..<16] = Inr (tokens, changed)"
    using row_tokens_ok [of "[0..<16]" rowA rowB render] rows by auto
  moreover obtain lns n_rows n_bytes where "view_rows render mA mB addrs = Inr (lns, n_rows, n_bytes)"
    using Cons by auto
  ultimately show ?case
    by (simp add: rows)
qed

lemma dump_compare_single_skip:
  assumes "\<not> comparable s (a, b)"
  shows "dump_compare_single a b s = Inr (s, None)"
  using assms by (auto simp: comparable_def dump_compare_single_def split: option.splits)

lemma dump_compare_single_stored:
  assumes "comparable s (a, b)"
  shows "\<exists>e. record_keys e = (a, b)
             \<and> dump_compare_single a b s =
                 Inr (store_cmp_result e (s\<lparr>ticks := ticks s + 1\<rparr>), Some (summary_of e))"
proof -
  obtain da db where da: "slot_dump s a = Some da" and db: "slot_dump s b = Some db"
    using assms by (auto simp: comparable_def)
  let ?mA = "parse_dump_to_matrix da" and ?mB = "parse_dump_to_matrix db"
  have rows: "\<forall>addr \<in> set ROW_ADDRS. (\<exists>row. ?mA addr = Some row \<and> length row = 16)
                                      \<and> (\<exists>row. ?mB addr = Some row \<and> length row = 16)"
    using row_addrs_parse_dump_to_matrix by blast
  obtain hexA n_rows n_bytes where v1: "view_rows (\<lambda>x y. x) ?mA ?mB ROW_ADDRS = Inr (hexA, n_rows, n_bytes)"
    using view_rows_ok [OF rows] by blast
  obtain hexB r2 b2 where v2: "view_rows (\<lambda>x y. y) ?mA ?mB ROW_ADDRS = Inr (hexB, r2, b2)"
    using view_rows_ok [OF rows] by blast
  obtain binA r3 b3 where v3: "view_rows (\<lambda>x y. hex_to_bin x) ?mA ?mB ROW_ADDRS = Inr (binA, r3, b3)"
    using view_rows_ok [OF rows] by blast
  obtain binB r4 b4 where v4: "view_rows (\<lambda>x y. hex_to_bin y) ?mA ?mB ROW_ADDRS = Inr (binB, r4, b4)"
    using view_rows_ok [OF rows] by blast
  let ?e = "\<lparr>key_a = a, key_b = b, changed_rows = n_rows, changed_bytes = n_bytes,
             timestamp = clock s (ticks s),
             hex_lines = [''hex'', '' disk:'' @ a, HEADER_LINE] @ hexA
                         @ [''disk:'' @ b, HEADER_LINE] @ hexB,
             binary_lines = ['''', ''binary'', ''disk:'' @ a, HEADER_LINE] @ binA
                         @ [''disk:'' @ b, HEADER_LINE] @ binB\<rparr>"
  have "dump_compare_single a b s =
          Inr (store_cmp_result ?e (s\<lparr>ticks := ticks s + 1\<rparr>), Some (summary_of ?e))"
    by (simp add: dump_compare_single_def da db v1 v2 v3 v4 now_def summary_of_def)
  moreover have "record_keys ?e = (a, b)"
    by (simp add: record_keys_def)
  ultimately show ?thesis by blast
qed

lemma compare_pairs_append:
  "compare_pairs (xs @ ys) st =
     (case compare_pairs xs st of Inl e \<Rightarrow> Inl e | Inr st1 \<Rightarrow> compare_pairs ys st1)"
proof (induction xs st rule: compare_pairs.induct)
  case (1 s session_stats)
  then show ?case by simp
next
  case (2 a b rest s session_stats)
  then show ?case
    by (auto split: sum.splits option.splits)
qed

lemma comparable_cong:
  "i2c_dump_slots s1 = i2c_dump_slots s \<Longrightarrow> comparable s1 = comparable s"
  by (intro ext) (simp add: comparable_def slot_dump_def)

lemma compare_pairs_result:
  "\<exists>s1 recs. compare_pairs prs (s, acc) = Inr (s1, acc @ map summary_of recs)
     \<and> map record_keys recs = filter (comparable s) prs
     \<and> (recs = [] \<longrightarrow> dumpcmp_results s1 = dumpcmp_results s \<and> results_file s1 = results_file s)
     \<and> (recs \<noteq> [] \<longrightarrow> dumpcmp_results s1 = lastn 400 (dumpcmp_results s @ recs)
                      \<and> results_file s1 = lastn 400 (dumpcmp_results s @ recs))
     \<and> cmp_history s1 = cmp_history s \<and> history_file s1 = history_file s
     \<and> i2c_dump_slots s1 = i2c_dump_slots s"
proof (induction prs arbitrary: s acc)
  case Nil
  have "compare_pairs [] (s, acc) = Inr (s, acc @ map summary_of [])"
    by simp
  then show ?case by (intro exI [of _ s] exI [of _ "[]"]) simp
next
  case (Cons p prs)
  obtain a b where p: "p = (a, b)" by (cases p)
  show ?case
  proof (cases "comparable s (a, b)")
    case False
    then have "compare_pairs (p # prs) (s, acc) = compare_pairs prs (s, acc)"
      by (simp add: p dump_compare_single_skip)
    then show ?thesis using Cons.IH [of s acc] False by (simp add: p)
  next
    case True
    then obtain e where e: "record_keys e = (a, b)"
      "dump_compare_single a b s =
         Inr (store_cmp_result e (s\<lparr>ticks := ticks s + 1\<rparr>), Some (summary_of e))"
      using dump_compare_single_stored by blast
    let ?s = "store_cmp_result e (s\<lparr>ticks := ticks s + 1\<rparr>)"
    have mem: "dumpcmp_results ?s = lastn 400 (dumpcmp_results s @ [e])"
      "results_file ?s = lastn 400 (dumpcmp_results s @ [e])"
      by (simp_all add: store_cmp_result_results)
    have slots: "i2c_dump_slots ?s = i2c_dump_slots s"
      by simp
    have step: "compare_pairs (p # prs) (s, acc) = compare_pairs prs (?s, acc @ [summary_of e])"
      using e(2) by (simp add: p)
    obtain s1 recs where r: "compare_pairs prs (?s, acc @ [summary_of e])
                             = Inr (s1, (acc @ [summary_of e]) @ map summary_of recs)"
      "map record_keys recs = filter (comparable ?s) prs"
      "recs = [] \<longrightarrow> dumpcmp_results s1 = dumpcmp_results ?s \<and> results_file s1 = results_file ?s"
      "recs \<noteq> [] \<longrightarrow> dumpcmp_results s1 = lastn 400 (dumpcmp_results ?s @ recs)
                      \<and> results_file s1 = lastn 400 (dumpcmp_results ?s @ recs)"
      "cmp_history s1 = cmp_history ?s" "history_file s1 = history_file ?s"
      "i2c_dump_slots s1 = i2c_dump_slots ?s"
      using Cons.IH [of ?s "acc @ [summary_of e]"] by blast
    have "compare_pairs (p # prs) (s, acc) = Inr (s1, acc @ map summary_of (e # recs))"
      using step r(1) by simp
    moreover have "map record_keys (e # recs) = filter (comparable s) (p # prs)"
      using True e(1) r(2) comparable_cong [OF slots] by (simp add: p)
    moreover have "dumpcmp_results s1 = lastn 400 (dumpcmp_results s @ e # recs)
                   \<and> results_file s1 = lastn 400 (dumpcmp_results s @ e # recs)"
    proof (cases "recs = []")
      case True
      then show ?thesis using r(3) mem by simp
    next
      case False
      have "lastn 400 (lastn 400 (dumpcmp_results s @ [e]) @ recs)
            = lastn 400 ((dumpcmp_results s @ [e]) @ recs)"
        by (rule lastn_append_lastn)
      then show ?thesis using False r(4) mem by simp
    qed
    moreover have "cmp_history s1 = cmp_history s" "history_file s1 = history_file s"
      "i2c_dump_slots s1 = i2c_dump_slots s"
      using r(5,6,7) by simp_all
    ultimately show ?thesis
      by (intro exI [of _ s1] exI [of _ "e # recs"]) simp
  qed
qed

lemma multi_dump_compare_result:
  assumes "prs \<noteq> []"
  shows "\<exists>s1 e. multi_dump_compare prs s = Inr s1
           \<and> cmp_history s1 = cmp_history s @ [e]
           \<and> history_file s1 = lastn 200 (cmp_history s @ [e])
           \<and> (results_file s1 = results_file s \<or> length (results_file s1) \<le> 400)"
proof -
  obtain s1 recs where r: "compare_pairs prs (s, []) = Inr (s1, [] @ map summary_of recs)"
    "recs = [] \<longrightarrow> dumpcmp_results s1 = dumpcmp_results s \<and> results_file s1 = results_file s"
    "recs \<noteq> [] \<longrightarrow> dumpcmp_results s1 = lastn 400 (dumpcmp_results s @ recs)
                    \<and> results_file s1 = lastn 400 (dumpcmp_results s @ recs)"
    "cmp_history s1 = cmp_history s"
    using compare_pairs_result [of prs s "[]"] by blast
  let ?e = "\<lparr>batch_timestamp = clock s1 (ticks s1), pairs = map summary_of recs\<rparr>"
  let ?s = "s1\<lparr>cmp_history := cmp_history s @ [?e],
               history_file := lastn 200 (cmp_history s @ [?e]), ticks := ticks s1 + 1\<rparr>"
  have "multi_dump_compare prs s = Inr ?s"
    using assms r(1,4)
    by (simp add: multi_dump_compare_def now_def save_cmp_history_def
        MAX_CMP_HISTORY_ENTRIES_def Let_def)
  moreover have "results_file ?s = results_file s \<or> length (results_file ?s) \<le> 400"
    using r(2,3) by (cases "recs = []") (simp_all add: length_lastn)
  ultimately show ?thesis
    by (intro exI [of _ ?s] exI [of _ ?e]) simp
qed

text \<open>
  Claim C4, as amended.  In a batch over the pairs \<open>prs\<close>, at the point where the
  first \<open>k\<close> pairs have been gone through, there is one record for every pair so
  far of which both slots hold a dump, in order; these records are in the list in
  memory and in the results file, which holds the last 400 entries, while the
  history in memory and the history file are as they were before the batch; the
  loop goes on from that state with the pairs that remain.  The one history entry
  of the batch, with the summaries of all its comparisons, is appended and written
  after the last pair.
\<close>

theorem batch_records_at_once_history_at_end:
  "\<exists>s1 recs.
      compare_pairs (take k prs) (s, []) = Inr (s1, map summary_of recs)
    \<and> compare_pairs prs (s, []) = compare_pairs (drop k prs) (s1, map summary_of recs)
    \<and> map record_keys recs = filter (comparable s) (take k prs)
    \<and> (recs \<noteq> [] \<longrightarrow> dumpcmp_results s1 = lastn 400 (dumpcmp_results s @ recs)
                     \<and> results_file s1 = lastn 400 (dumpcmp_results s @ recs))
    \<and> cmp_history s1 = cmp_history s \<and> history_file s1 = history_file s
    \<and> (prs \<noteq> [] \<and> length prs \<le> k \<longrightarrow>
         multi_dump_compare prs s =
           Inr (s1\<lparr>cmp_history := cmp_history s
                        @ [\<lparr>batch_timestamp = clock s1 (ticks s1), pairs = map summary_of recs\<rparr>],
                    history_file := lastn 200 (cmp_history s
                        @ [\<lparr>batch_timestamp = clock s1 (ticks s1), pairs = map summary_of recs\<rparr>]),
                    ticks := ticks s1 + 1\<rparr>))"
proof -
  obtain s1 recs where r: "compare_pairs (take k prs) (s, []) = Inr (s1, [] @ map summary_of recs)"
    "map record_keys recs = filter (comparable s) (take k prs)"
    "recs \<noteq> [] \<longrightarrow> dumpcmp_results s1 = lastn 400 (dumpcmp_results s @ recs)
                     \<and> results_file s1 = lastn 400 (dumpcmp_results s @ recs)"
    "cmp_history s1 = cmp_history s" "history_file s1 = history_file s"
    using compare_pairs_result [of "take k prs" s "[]"] by blast
  have "compare_pairs (take k prs @ drop k prs) (s, [])
        = compare_pairs (drop k prs) (s1, map summary_of recs)"
    using r(1) by (simp only: compare_pairs_append) simp
  then have cont: "compare_pairs prs (s, []) = compare_pairs (drop k prs) (s1, map summary_of recs)"
    by simp
  have "multi_dump_compare prs s =
           Inr (s1\<lparr>cmp_history := cmp_history s
                        @ [\<lparr>batch_timestamp = clock s1 (ticks s1), pairs = map summary_of recs\<rparr>],
                    history_file := lastn 200 (cmp_history s
                        @ [\<lparr>batch_timestamp = clock s1 (ticks s1), pairs = map summary_of recs\<rparr>]),
                    ticks := ticks s1 + 1\<rparr>)"
    if "prs \<noteq> []" "length prs \<le> k"
  proof -
    have "compare_pairs prs (s, []) = Inr (s1, map summary_of recs)"
      using cont that(2) by simp
    then show ?thesis
      using that(1) r(4)
      by (simp add: multi_dump_compare_def now_def save_cmp_history_def
          MAX_CMP_HISTORY_ENTRIES_def Let_def)
  qed
  then show ?thesis
    using r cont by (intro exI [of _ s1] exI [of _ recs]) simp
qed

lemma example_comparable:
  "comparable example_compare_state (''0'', ''1'')"
  "comparable example_compare_state (''1'', ''0'')"
  by code_simp+

lemma example_compare_state_logs:
  "dumpcmp_results example_compare_state = []" "results_file example_compare_state = []"
  "cmp_history example_compare_state = []" "history_file example_compare_state = []"
  by (simp_all add: example_compare_state_def)

theorem batch_records_at_once_history_at_end_witness:
  "\<exists>s1 recs.
      compare_pairs (take 1 [(''0'', ''1''), (''1'', ''0'')]) (example_compare_state, [])
        = Inr (s1, map summary_of recs)
    \<and> map record_keys recs = [(''0'', ''1'')]
    \<and> recs \<noteq> []
    \<and> results_file s1 = recs
    \<and> history_file s1 = []"
proof -
  let ?prs = "[(''0'', ''1''), (''1'', ''0'')]"
  obtain s1 recs where r:
    "compare_pairs (take 1 ?prs) (example_compare_state, []) = Inr (s1, map summary_of recs)"
    "map record_keys recs = filter (comparable example_compare_state) (take 1 ?prs)"
    "recs \<noteq> [] \<longrightarrow> results_file s1 = lastn 400 (dumpcmp_results example_compare_state @ recs)"
    "history_file s1 = history_file example_compare_state"
    using batch_records_at_once_history_at_end [of 1 ?prs example_compare_state] by blast
  have keys: "map record_keys recs = [(''0'', ''1'')]"
    using r(2) by (simp add: example_comparable)
  then have len: "length recs = 1"
    by (metis length_map length_Cons list.size(3) One_nat_def)
  then have ne: "recs \<noteq> []"
    by auto
  have "results_file s1 = recs"
    using r(3) ne len by (simp add: example_compare_state_logs lastn_all)
  then show ?thesis
    using r(1,4) keys ne
    by (intro exI [of _ s1] exI [of _ recs]) (simp add: example_compare_state_logs)
qed

text \<open>
  As the claim is written, the history entry that covers a pair is in the
  persisted history right after that pair.  After the first pair of a batch of two
  the results file holds the record of the pair and the history file holds
  nothing; the entry is there when the batch is over.
\<close>

theorem batch_records_at_once_history_at_end_counterexample:
  "map_option (length \<circ> results_file) (after_pairs [(''0'', ''1'')] example_compare_state) = Some 1
   \<and> map_option history_file (after_pairs [(''0'', ''1'')] example_compare_state) = Some []
   \<and> map_option (length \<circ> history_file)
        (after_batch [(''0'', ''1''), (''1'', ''0'')] example_compare_state) = Some 1"
proof -
  obtain s1 recs where r:
    "compare_pairs [(''0'', ''1'')] (example_compare_state, []) = Inr (s1, [] @ map summary_of recs)"
    "map record_keys recs = filter (comparable example_compare_state) [(''0'', ''1'')]"
    "recs \<noteq> [] \<longrightarrow> results_file s1 = lastn 400 (dumpcmp_results example_compare_state @ recs)"
    "history_file s1 = history_file example_compare_state"
    using compare_pairs_result [of "[(''0'', ''1'')]" example_compare_state "[]"] by blast
  have "map record_keys recs = [(''0'', ''1'')]"
    using r(2) by (simp add: example_comparable)
  then have len: "length recs = 1"
    by (metis length_map length_Cons list.size(3) One_nat_def)
  then have "results_file s1 = recs"
    using r(3) by (cases recs) (simp_all add: example_compare_state_logs lastn_all)
  then have first: "length (results_file s1) = 1" "history_file s1 = []"
    using len r(4) by (simp_all add: example_compare_state_logs)
  have after1: "after_pairs [(''0'', ''1'')] example_compare_state = Some s1"
    using r(1) by (simp add: after_pairs_def)
  let ?prs = "[(''0'', ''1''), (''1'', ''0'')]"
  obtain s2 e where "multi_dump_compare ?prs example_compare_state = Inr s2"
    "history_file s2 = lastn 200 (cmp_history example_compare_state @ [e])"
    using multi_dump_compare_result [of ?prs example_compare_state] by auto
  then have "map_option (length \<circ> history_file) (after_batch ?prs example_compare_state) = Some 1"
    by (simp add: after_batch_def example_compare_state_logs lastn_all)
  then show ?thesis
    using first after1 by simp
qed

lemma run_command_caps:
  assumes "length (results_file s) \<le> 400" "length (history_file s) \<le> 200"
  shows "\<exists>s1. run_command c s = Inr s1
           \<and> length (results_file s1) \<le> 400 \<and> length (history_file s1) \<le> 200"
proof (cases c)
  case (DumpCmp a b)
  show ?thesis
  proof (cases "comparable s (a, b)")
    case False
    then show ?thesis
      using assms by (simp add: run_command_def DumpCmp dump_compare_single_skip)
  next
    case True
    then obtain e where "dump_compare_single a b s =
         Inr (store_cmp_result e (s\<lparr>ticks := ticks s + 1\<rparr>), Some (summary_of e))"
      using dump_compare_single_stored by blast
    then show ?thesis
      using assms
      by (simp add: run_command_def DumpCmp store_cmp_result_results length_lastn)
  qed
next
  case (DumpCmpMulti prs)
  show ?thesis
  proof (cases "prs = []")
    case True
    then show ?thesis
      using assms by (simp add: run_command_def DumpCmpMulti multi_dump_compare_def)
  next
    case False
    then obtain s1 e where "multi_dump_compare prs s = Inr s1"
      "history_file s1 = lastn 200 (cmp_history s @ [e])"
      "results_file s1 = results_file s \<or> length (results_file s1) \<le> 400"
      using multi_dump_compare_result [of prs s] by blast
    then show ?thesis
      using assms by (auto simp: run_command_def DumpCmpMulti length_lastn)
  qed
qed

lemma run_commands_caps:
  assumes "length (results_file s) \<le> 400" "length (history_file s) \<le> 200"
  shows "\<exists>s1. run_commands cmds s = Inr s1
           \<and> length (results_file s1) \<le> 400 \<and> length (history_file s1) \<le> 200"
  using assms
proof (induction cmds arbitrary: s)
  case Nil
  then show ?case by simp
next
  case (Cons c cmds)
  obtain s1 where s1: "run_command c s = Inr s1"
    "length (results_file s1) \<le> 400" "length (history_file s1) \<le> 200"
    using run_command_caps [OF Cons.prems] by blast
  then show ?case
    using Cons.IH [of s1] by simp
qed

text \<open>
  Claim C9.  After one or more records have been appended, the results file holds
  the last 400 of the entries the list in memory had and the ones appended, so
  never more than 400, the newest of them kept.  After a batch, the history file
  holds the last 200 of the history entries in memory with the new entry at the
  end, so never more than 200.  Both bounds hold after any sequence of single and
  batch compare commands when they hold before it.  Taking the last \<open>n\<close> of a list
  drops entries from its front only.
\<close>

theorem compare_logs_capped:
  "(es \<noteq> [] \<longrightarrow>
      results_file (fold store_cmp_result es s) = lastn 400 (dumpcmp_results s @ es)
      \<and> length (results_file (fold store_cmp_result es s)) \<le> 400)
   \<and> (prs \<noteq> [] \<longrightarrow>
      (\<exists>s1 e. multi_dump_compare prs s = Inr s1
          \<and> cmp_history s1 = cmp_history s @ [e]
          \<and> history_file s1 = lastn 200 (cmp_history s @ [e])
          \<and> length (history_file s1) \<le> 200))
   \<and> (length (results_file s) \<le> 400 \<and> length (history_file s) \<le> 200 \<longrightarrow>
      (\<exists>s1. run_commands cmds s = Inr s1
          \<and> length (results_file s1) \<le> 400 \<and> length (history_file s1) \<le> 200))
   \<and> (\<exists>older. xs = older @ lastn n xs) \<and> length (lastn n xs) = min n (length xs)"
proof (intro conjI impI)
  assume "es \<noteq> []"
  then show "results_file (fold store_cmp_result es s) = lastn 400 (dumpcmp_results s @ es)"
    by (simp add: fold_store_cmp_result)
  then show "length (results_file (fold store_cmp_result es s)) \<le> 400"
    by (simp add: length_lastn)
next
  assume "prs \<noteq> []"
  then obtain s1 e where "multi_dump_compare prs s = Inr s1"
    "cmp_history s1 = cmp_history s @ [e]"
    "history_file s1 = lastn 200 (cmp_history s @ [e])"
    using multi_dump_compare_result [of prs s] by blast
  then show "\<exists>s1 e. multi_dump_compare prs s = Inr s1
          \<and> cmp_history s1 = cmp_history s @ [e]
          \<and> history_file s1 = lastn 200 (cmp_history s @ [e])
          \<and> length (history_file s1) \<le> 200"
    by (intro exI [of _ s1] exI [of _ e]) (simp add: length_lastn)
next
  assume "length (results_file s) \<le> 400 \<and> length (history_file s) \<le> 200"
  then show "\<exists>s1. run_commands cmds s = Inr s1
          \<and> length (results_file s1) \<le> 400 \<and> length (history_file s1) \<le> 200"
    using run_commands_caps by blast
next
  show "\<exists>older. xs = older @ lastn n xs"
    using lastn_suffix by blast
  show "length (lastn n xs) = min n (length xs)"
    by (rule length_lastn)
qed

theorem compare_logs_capped_witness:
  "[masked_record ''0'' ''t''] \<noteq> []
   \<and> results_file (fold store_cmp_result [masked_record ''0'' ''t''] example_compare_state)
       = [masked_record ''0'' ''t'']
   \<and> [(''0'', ''1'')] \<noteq> []
   \<and> (\<exists>s1 e. multi_dump_compare [(''0'', ''1'')] example_compare_state = Inr s1
          \<and> history_file s1 = [e])
   \<and> length (results_file example_compare_state) \<le> 400
   \<and> length (history_file example_compare_state) \<le> 200
   \<and> (\<exists>s1. run_commands [DumpCmp ''0'' ''1'', DumpCmpMulti [(''0'', ''0''), (''1'', ''0'')]]
              example_compare_state = Inr s1
          \<and> length (results_file s1) \<le> 400 \<and> length (history_file s1) \<le> 200)"
proof -
  let ?e = "masked_record ''0'' ''t''"
  let ?cmds = "[DumpCmp ''0'' ''1'', DumpCmpMulti [(''0'', ''0''), (''1'', ''0'')]]"
  note inst = compare_logs_capped [where es = "[?e]" and s = example_compare_state
      and prs = "[(''0'', ''1'')]" and cmds = ?cmds and xs = "[] :: nat list" and n = 0]
  have logs: "dumpcmp_results example_compare_state = []" "results_file example_compare_state = []"
    "cmp_history example_compare_state = []" "history_file example_compare_state = []"
    by (simp_all add: example_compare_state_def)
  have "results_file (fold store_cmp_result [?e] example_compare_state) = lastn 400 ([] @ [?e])"
    using inst by (simp add: logs)
  then have a: "results_file (fold store_cmp_result [?e] example_compare_state) = [?e]"
    by (simp add: lastn_def)
  obtain s1 e where "multi_dump_compare [(''0'', ''1'')] example_compare_state = Inr s1"
    "history_file s1 = lastn 200 (cmp_history example_compare_state @ [e])"
    using inst by auto
  then have b: "\<exists>s1 e. multi_dump_compare [(''0'', ''1'')] example_compare_state = Inr s1
          \<and> history_file s1 = [e]"
    by (intro exI [of _ s1] exI [of _ e]) (simp add: logs lastn_def)
  have c: "\<exists>s1. run_commands ?cmds example_compare_state = Inr s1
          \<and> length (results_file s1) \<le> 400 \<and> length (history_file s1) \<le> 200"
    using inst by (simp add: logs)
  show ?thesis
    using a b c by (simp add: logs)
qed

end
